theory Spec2Isabelle
  imports Complex_Main "HOL-Library.Sublist" "HOL-Library.Option_ord"
begin

section \<open>Shared Python notions\<close>

text \<open>
  Exceptions raised by the modelled code. The first eight are the exception classes of
  \<^verbatim>\<open>ipaclient.py\<close>, each carrying the argument it was raised with; the others are
  the built-in exceptions that the modelled statements can raise.
\<close>

datatype json =
    JNull
  | JBool bool
  | JInt int
  | JStr string
  | JList "json list"
  | JObj "(string \<times> json) list"

datatype exc =
    IPAError json
  | AuthenticationError json
  | AuthorizationError json
  | InvocationError json
  | ExecutionError json
  | NotFoundError json
  | AlreadyExistsError json
  | GenericError json
  | KeyError
  | TypeError
  | AttributeError
  | ValueError
  | ZeroDivisionError

text \<open>Python's \<^verbatim>\<open>sub in s\<close> on strings: \<open>sub\<close> occurs in \<open>s\<close> as a contiguous run.\<close>

fun str_in :: "string \<Rightarrow> string \<Rightarrow> bool" where
  "str_in sub [] = (sub = [])"
| "str_in sub (c # cs) = (prefix sub (c # cs) \<or> str_in sub cs)"

section \<open>ipaclient.py: check_response\<close>

text \<open>
  A response is read through \<^verbatim>\<open>response.text\<close> and \<^verbatim>\<open>response.json()\<close>.
  \<open>body_json\<close> is \<open>None\<close> when the body is not valid JSON, in which case
  \<^verbatim>\<open>response.json()\<close> raises a \<^verbatim>\<open>ValueError\<close>. JSON numbers are integers here.
\<close>

record response =
  text_of :: string
  body_json :: "json option"

text \<open>Truth value of a parsed JSON value in a Python condition.\<close>

fun truthy :: "json \<Rightarrow> bool" where
  "truthy JNull = False"
| "truthy (JBool b) = b"
| "truthy (JInt n) = (n \<noteq> 0)"
| "truthy (JStr s) = (s \<noteq> [])"
| "truthy (JList xs) = (xs \<noteq> [])"
| "truthy (JObj fs) = (fs \<noteq> [])"

text \<open>\<^verbatim>\<open>obj[key]\<close> with a string key: only a dict can be indexed by a string.\<close>

fun subscript :: "json \<Rightarrow> string \<Rightarrow> exc + json" where
  "subscript (JObj fs) k = (case map_of fs k of None \<Rightarrow> Inl KeyError | Some v \<Rightarrow> Inr v)"
| "subscript _ k = Inl TypeError"

text \<open>\<^verbatim>\<open>obj.get(key, False)\<close>: only a dict has the method.\<close>

fun get_default :: "json \<Rightarrow> string \<Rightarrow> exc + json" where
  "get_default (JObj fs) k = (case map_of fs k of None \<Rightarrow> Inr (JBool False) | Some v \<Rightarrow> Inr v)"
| "get_default _ k = Inl AttributeError"

text \<open>
  The value of \<open>code\<close> in an integer comparison: a bool is an integer in Python,
  any other non-number makes the comparison raise \<^verbatim>\<open>TypeError\<close>.
\<close>

fun as_number :: "json \<Rightarrow> exc + int" where
  "as_number (JInt n) = Inr n"
| "as_number (JBool b) = Inr (if b then 1 else 0)"
| "as_number _ = Inl TypeError"

definition marker :: string where
  "marker = ''Unable to verify your Kerberos credentials''"

text \<open>Lines 132 to 149: the classification of a truthy \<open>error\<close> member.\<close>

definition raise_with :: "(json \<Rightarrow> exc) \<Rightarrow> json \<Rightarrow> exc + unit" where
  "raise_with cls err = (case subscript err ''message'' of Inl e \<Rightarrow> Inl e | Inr m \<Rightarrow> Inl (cls m))"

definition classify :: "json \<Rightarrow> exc + unit" where
  "classify err =
     (case subscript err ''code'' of
        Inl e \<Rightarrow> Inl e
      | Inr cj \<Rightarrow>
         (case as_number cj of
            Inl e \<Rightarrow> Inl e
          | Inr code \<Rightarrow>
              if 1000 \<le> code \<and> code \<le> 1999 then raise_with AuthenticationError err
              else if 2000 \<le> code \<and> code \<le> 2999 then raise_with AuthorizationError err
              else if 3000 \<le> code \<and> code \<le> 3999 then raise_with InvocationError err
              else if code = 4001 then raise_with NotFoundError err
              else if code = 4002 then raise_with AlreadyExistsError err
              else if 4000 \<le> code \<and> code \<le> 4999 then raise_with ExecutionError err
              else if 5000 \<le> code \<and> code \<le> 5999 then raise_with GenericError err
              else Inl (IPAError (JStr ''Unknown error.''))))"

text \<open>Lines 124 to 127: the check of the \<open>truncated\<close> flag; \<open>Inr ()\<close> is falling through.\<close>

definition check_truncated :: "json \<Rightarrow> exc + unit" where
  "check_truncated res =
     (if truthy res then
        (case get_default res ''truncated'' of
           Inl e \<Rightarrow> Inl e
         | Inr t \<Rightarrow> if truthy t then Inl (IPAError (JStr ''IPA results truncated.'')) else Inr ())
      else Inr ())"

text \<open>\<^verbatim>\<open>check_response\<close>: \<open>Inr ()\<close> is the plain return, \<open>Inl e\<close> is raising \<open>e\<close>.\<close>

definition check_response :: "response \<Rightarrow> exc + unit" where
  "check_response response =
     (if str_in marker (text_of response) then
        Inl (AuthenticationError (JStr ''Invalid Kerberos Credentials''))
      else
        (case body_json response of
           None \<Rightarrow> Inl ValueError
         | Some response_obj \<Rightarrow>
            (case subscript response_obj ''result'' of
               Inl e \<Rightarrow> Inl e
             | Inr res \<Rightarrow>
                (case check_truncated res of
                   Inl e \<Rightarrow> Inl e
                 | Inr _ \<Rightarrow>
                    (case subscript response_obj ''error'' of
                       Inl e \<Rightarrow> Inl e
                     | Inr err \<Rightarrow> if \<not> truthy err then Inr () else classify err)))))"

section \<open>spot.py: the core table and the price table\<close>

text \<open>The table \<^verbatim>\<open>_CORES\<close>, from the size suffix to the number of cores.\<close>

definition CORES :: "(string \<times> int) list" where
  "CORES =
     [(''medium'', 2), (''large'', 2), (''xlarge'', 4), (''2xlarge'', 8), (''4xlarge'', 16),
      (''10xlarge'', 40), (''12xlarge'', 48), (''16xlarge'', 64), (''24xlarge'', 96)]"

text \<open>\<^verbatim>\<open>s.split(d)\<close> for a one-character separator: never the empty list.\<close>

fun split_on :: "char \<Rightarrow> string \<Rightarrow> string list" where
  "split_on d [] = [[]]"
| "split_on d (c # cs) =
     (if c = d then [] # split_on d cs
      else (case split_on d cs of [] \<Rightarrow> [[c]] | p # ps \<Rightarrow> (c # p) # ps))"

text \<open>\<^verbatim>\<open>cores_of\<close>: the table entry of the last dot-separated component, or \<^verbatim>\<open>KeyError\<close>.\<close>

definition cores_of :: "string \<Rightarrow> exc + int" where
  "cores_of instance_type =
     (case map_of CORES (last (split_on CHR ''.'' instance_type)) of
        None \<Rightarrow> Inl KeyError
      | Some c \<Rightarrow> Inr c)"

text \<open>
  A dict is an association list in insertion order with one pair per key:
  assigning to a present key keeps its place, a new key goes to the end.
\<close>

fun dict_set :: "'k \<Rightarrow> 'v \<Rightarrow> ('k \<times> 'v) list \<Rightarrow> ('k \<times> 'v) list" where
  "dict_set k v [] = [(k, v)]"
| "dict_set k v ((k', v') # d) = (if k' = k then (k', v) # d else (k', v') # dict_set k v d)"

definition fromkeys :: "'k list \<Rightarrow> 'v \<Rightarrow> ('k \<times> 'v) list" where
  "fromkeys ks v = foldl (\<lambda>d k. dict_set k v d) [] ks"

text \<open>
  One record of \<^verbatim>\<open>SpotPriceHistory\<close>: the instance type and the price already read by
  \<^verbatim>\<open>float\<close>. Prices are rationals here. The pricing service is a parameter \<open>api\<close> of
  the model: from the requested types and a zone to the records of the last day.
\<close>

type_synonym observation = "string \<times> rat"
type_synonym api = "string list \<Rightarrow> string \<Rightarrow> observation list"

definition get_latest_price :: "api \<Rightarrow> string list \<Rightarrow> string \<Rightarrow> observation list option" where
  "get_latest_price api types az =
     (let price_list = api types az in if price_list \<noteq> [] then Some price_list else None)"

text \<open>The value stored for a priced pair; the empty dict \<^verbatim>\<open>{}\<close> of an unpriced pair is \<open>None\<close>.\<close>

record entry =
  e_price :: rat
  e_core_price :: rat
  e_cores :: int

type_synonym row = "(string \<times> entry option) list"
type_synonym pricing = "(string \<times> row) list"

text \<open>
  Lines 38 to 44: the records of one zone are written into the zone's row. The division of
  line 41 never raises, since \<^verbatim>\<open>_CORES\<close> has no zero entry.
\<close>

fun fill_prices :: "observation list \<Rightarrow> row \<Rightarrow> exc + row" where
  "fill_prices [] r = Inr r"
| "fill_prices ((instance_type, p) # results) r =
     (case cores_of instance_type of
        Inl e \<Rightarrow> Inl e
      | Inr c \<Rightarrow>
          fill_prices results
            (dict_set instance_type
               (Some \<lparr>e_price = p, e_core_price = p / of_int c, e_cores = c\<rparr>) r))"

text \<open>
  Lines 36 to 44. Iterating over the \<^verbatim>\<open>None\<close> that \<^verbatim>\<open>get_latest_price\<close> returns for a
  zone without records raises \<^verbatim>\<open>TypeError\<close>.
\<close>

fun pricing_loop :: "api \<Rightarrow> string list \<Rightarrow> string list \<Rightarrow> pricing \<Rightarrow> exc + pricing" where
  "pricing_loop api types [] price_list = Inr price_list"
| "pricing_loop api types (az # azs) price_list =
     (case get_latest_price api types az of
        None \<Rightarrow> Inl TypeError
      | Some results \<Rightarrow>
         (case fill_prices results (fromkeys types None) of
            Inl e \<Rightarrow> Inl e
          | Inr r \<Rightarrow> pricing_loop api types azs (dict_set az r price_list)))"

definition get_pricing :: "api \<Rightarrow> string list \<Rightarrow> string list \<Rightarrow> exc + pricing" where
  "get_pricing api instance_types availability_zones =
     pricing_loop api instance_types availability_zones (fromkeys availability_zones [])"

section \<open>spot.py: the candidate set and its ranking\<close>

type_synonym choices = "(rat option \<times> (string \<times> string) list) list"

text \<open>Lines 52 to 56: the pair goes under its core price, \<open>None\<close> for an empty entry.\<close>

definition add_choice :: "rat option \<Rightarrow> string \<times> string \<Rightarrow> choices \<Rightarrow> choices" where
  "add_choice pr pair choices =
     (case map_of choices pr of
        None \<Rightarrow> dict_set pr [pair] choices
      | Some ps \<Rightarrow> dict_set pr (ps @ [pair]) choices)"

definition sort_by_price :: "pricing \<Rightarrow> choices" where
  "sort_by_price pricing =
     foldl (\<lambda>choices (az, r).
        foldl (\<lambda>choices (instance_type, en).
           add_choice (map_option e_core_price en) (az, instance_type) choices) choices r)
       [] pricing"

text \<open>
  \<^verbatim>\<open>sorted(price_list)\<close> on the keys: comparing \<^verbatim>\<open>None\<close> with a number raises
  \<^verbatim>\<open>TypeError\<close>, which happens as soon as there is a second key.
\<close>

definition sorted_prices :: "rat option list \<Rightarrow> exc + rat option list" where
  "sorted_prices ks =
     (if None \<in> set ks \<and> 2 \<le> length ks then Inl TypeError else Inr (sort ks))"

text \<open>Line 76: the groups are appended in the order of the sorted keys.\<close>

fun extend_all :: "choices \<Rightarrow> rat option list \<Rightarrow> (string \<times> string) list \<Rightarrow> exc + (string \<times> string) list" where
  "extend_all price_list [] choices = Inr choices"
| "extend_all price_list (pr # ks) choices =
     (case map_of price_list pr of
        None \<Rightarrow> Inl KeyError
      | Some ps \<Rightarrow> extend_all price_list ks (choices @ ps))"

text \<open>Lines 73 to 76: the ranking that the planner walks.\<close>

definition ranking :: "api \<Rightarrow> string list \<Rightarrow> string list \<Rightarrow> exc + (string \<times> string) list" where
  "ranking api instance_types azs =
     (case get_pricing api instance_types azs of
        Inl e \<Rightarrow> Inl e
      | Inr pricing \<Rightarrow>
         (let price_list = sort_by_price pricing in
          case sorted_prices (map fst price_list) of
            Inl e \<Rightarrow> Inl e
          | Inr ks \<Rightarrow> extend_all price_list ks []))"

section \<open>spot.py: get_cheap_cores\<close>

text \<open>Line 77: the list comprehension, and \<^verbatim>\<open>min\<close>, which raises on the empty list.\<close>

fun cores_list :: "string list \<Rightarrow> exc + int list" where
  "cores_list [] = Inr []"
| "cores_list (itype # ts) =
     (case cores_of itype of
        Inl e \<Rightarrow> Inl e
      | Inr c \<Rightarrow> (case cores_list ts of Inl e \<Rightarrow> Inl e | Inr cs \<Rightarrow> Inr (c # cs)))"

definition py_min :: "int list \<Rightarrow> exc + int" where
  "py_min xs = (if xs = [] then Inl ValueError else Inr (min_list xs))"

definition py_divmod :: "int \<Rightarrow> int \<Rightarrow> exc + int \<times> int" where
  "py_divmod a b = (if b = 0 then Inl ZeroDivisionError else Inr (a div b, a mod b))"

text \<open>The variables that the loop of lines 82 to 97 changes.\<close>

record walk_state =
  result :: "(string \<times> int) list"
  left_cores :: int
  spare_cores :: int

definition choice_key :: "string \<Rightarrow> string \<Rightarrow> string" where
  "choice_key az instance_type = az @ ''|'' @ instance_type"

text \<open>\<^verbatim>\<open>result[choice] += 1\<close>.\<close>

definition dict_incr :: "string \<Rightarrow> (string \<times> int) list \<Rightarrow> exc + (string \<times> int) list" where
  "dict_incr k d = (case map_of d k of None \<Rightarrow> Inl KeyError | Some n \<Rightarrow> Inr (dict_set k (n + 1) d))"

text \<open>Lines 91 to 93: whole units while the pool holds one more.\<close>

function whole_units :: "string \<Rightarrow> string \<Rightarrow> walk_state \<Rightarrow> exc + walk_state" where
  "whole_units instance_type choice st =
     (case cores_of instance_type of
        Inl e \<Rightarrow> Inl e
      | Inr c \<Rightarrow>
          if c \<le> left_cores st then
            (case dict_incr choice (result st) of
               Inl e \<Rightarrow> Inl e
             | Inr r \<Rightarrow>
                 whole_units instance_type choice
                   (st\<lparr>left_cores := left_cores st - c, result := r\<rparr>))
          else Inr st)"
  by pat_completeness auto
termination
proof (relation "measure (\<lambda>(instance_type, choice, st). nat (left_cores st))")
  show "wf (measure (\<lambda>(instance_type, choice, st). nat (left_cores st)))"
    by simp
next
  fix instance_type choice :: string and st :: walk_state and c :: int and r
  assume c: "cores_of instance_type = Inr c" and le: "c \<le> left_cores st"
  from c have "c \<in> snd ` set CORES"
    by (auto simp: cores_of_def split: option.splits dest: map_of_SomeD intro: rev_image_eqI)
  then have "0 < c"
    by (auto simp: CORES_def)
  with le show "((instance_type, choice, st\<lparr>left_cores := left_cores st - c, result := r\<rparr>),
                 (instance_type, choice, st)) \<in> measure (\<lambda>(instance_type, choice, st). nat (left_cores st))"
    by simp
qed

declare whole_units.simps [simp del]

text \<open>Lines 87 to 97: the allocation in a newly chosen zone.\<close>

definition allocate :: "int \<Rightarrow> string \<Rightarrow> string \<Rightarrow> walk_state \<Rightarrow> exc + walk_state" where
  "allocate cores_per_az az instance_type st =
     (let choice = choice_key az instance_type;
          st1 = (if choice \<notin> set (map fst (result st))
                 then st\<lparr>result := dict_set choice 0 (result st)\<rparr> else st);
          st2 = st1\<lparr>left_cores := left_cores st1 + cores_per_az\<rparr>
      in case whole_units instance_type choice st2 of
           Inl e \<Rightarrow> Inl e
         | Inr st3 \<Rightarrow>
            (let st4 = st3\<lparr>spare_cores := spare_cores st3 + left_cores st3\<rparr> in
             if spare_cores st4 \<noteq> 0 then
               (case cores_of instance_type of
                  Inl e \<Rightarrow> Inl e
                | Inr c \<Rightarrow>
                    if c \<le> spare_cores st4 then
                      (case dict_incr choice (result st4) of
                         Inl e \<Rightarrow> Inl e
                       | Inr r \<Rightarrow> Inr (st4\<lparr>result := r, spare_cores := spare_cores st4 - c\<rparr>))
                    else Inr st4)
             else Inr st4))"

text \<open>
  Lines 82 to 97: a pair is skipped when its zone occurs inside a key of the plan, and the
  loop ends once the plan has \<open>min_azs\<close> keys.
\<close>

fun walk :: "int \<Rightarrow> int \<Rightarrow> (string \<times> string) list \<Rightarrow> walk_state \<Rightarrow> exc + walk_state" where
  "walk cores_per_az min_azs [] st = Inr st"
| "walk cores_per_az min_azs ((az, instance_type) # choices) st =
     (if list_ex (str_in az) (map fst (result st)) then walk cores_per_az min_azs choices st
      else if int (length (result st)) = min_azs then Inr st
      else (case allocate cores_per_az az instance_type st of
              Inl e \<Rightarrow> Inl e
            | Inr st' \<Rightarrow> walk cores_per_az min_azs choices st'))"

definition get_cheap_cores ::
    "api \<Rightarrow> int \<Rightarrow> string list \<Rightarrow> string list \<Rightarrow> int \<Rightarrow> exc + (string \<times> int) list" where
  "get_cheap_cores api cores instance_types azs min_azs =
     (case ranking api instance_types azs of
        Inl e \<Rightarrow> Inl e
      | Inr choices \<Rightarrow>
     (case cores_list instance_types of
        Inl e \<Rightarrow> Inl e
      | Inr cs \<Rightarrow>
     (case py_min cs of
        Inl e \<Rightarrow> Inl e
      | Inr smallest \<Rightarrow>
     (case py_divmod cores (smallest * min_azs) of
        Inl e \<Rightarrow> Inl e
      | Inr (cores_per_az, spare) \<Rightarrow>
     (case walk (cores_per_az * smallest) min_azs choices
             \<lparr>result = [], left_cores = 0, spare_cores = spare\<rparr> of
        Inl e \<Rightarrow> Inl e
      | Inr st \<Rightarrow> Inr (result st))))))"

section \<open>Notions used in the proofs\<close>

text \<open>
  A priced entry is well formed for its instance type when its core count is the positive
  table entry of the type's size suffix and its core price is the price divided by it.
\<close>

definition entry_ok :: "string \<Rightarrow> entry \<Rightarrow> bool" where
  "entry_ok t en \<longleftrightarrow>
     (\<exists>c. map_of CORES (last (split_on CHR ''.'' t)) = Some c \<and> 0 < c \<and> e_cores en = c
          \<and> e_core_price en = e_price en / of_int c)"

definition pricing_ok :: "pricing \<Rightarrow> bool" where
  "pricing_ok pr \<longleftrightarrow> (\<forall>(az, r) \<in> set pr. \<forall>(t, en) \<in> set r. \<forall>x. en = Some x \<longrightarrow> entry_ok t x)"

text \<open>The row that \<^verbatim>\<open>get_pricing\<close> builds for a zone with records.\<close>

definition filled :: "api \<Rightarrow> string list \<Rightarrow> string \<Rightarrow> row \<Rightarrow> bool" where
  "filled api types az r \<longleftrightarrow>
     api types az \<noteq> [] \<and> fill_prices (api types az) (fromkeys types None) = Inr r"

text \<open>
  The candidates in the order in which \<^verbatim>\<open>sort_by_price\<close> meets them, each with the key it
  is put under, and the set of the pairs that a candidate set holds under a key.
\<close>

definition flat :: "pricing \<Rightarrow> (rat option \<times> string \<times> string) list" where
  "flat pr = concat (map (\<lambda>(az, r). map (\<lambda>(t, en). (map_option e_core_price en, (az, t))) r) pr)"

definition group :: "choices \<Rightarrow> rat option \<Rightarrow> (string \<times> string) set" where
  "group ch k = (case map_of ch k of None \<Rightarrow> {} | Some ps \<Rightarrow> set ps)"

section \<open>Properties of check_response\<close>

lemma raise_with_obj:
  "map_of ef ''message'' = Some msg \<Longrightarrow> raise_with cls (JObj ef) = Inl (cls msg)"
  by (simp add: raise_with_def)

lemma check_response_reaches_classify:
  assumes "\<not> str_in marker (text_of r)"
    and "body_json r = Some (JObj fs)"
    and "map_of fs ''result'' = Some res"
    and "check_truncated res = Inr ()"
    and "map_of fs ''error'' = Some err"
    and "truthy err"
  shows "check_response r = classify err"
  using assms by (simp add: check_response_def)

text \<open>
  Claim C5. Take a response whose text has no credential marker, whose body is a JSON
  object with a \<open>result\<close> member that passes the truncation check and an \<open>error\<close> member
  that is an object with an integer \<open>code\<close> and a \<open>message\<close>. Then
  \<^verbatim>\<open>check_response\<close> raises, with that message, \<^verbatim>\<open>AuthenticationError\<close> for 1000 to 1999,
  \<^verbatim>\<open>AuthorizationError\<close> for 2000 to 2999, \<^verbatim>\<open>InvocationError\<close> for 3000 to 3999,
  \<^verbatim>\<open>NotFoundError\<close> for 4001, \<^verbatim>\<open>AlreadyExistsError\<close> for 4002, \<^verbatim>\<open>ExecutionError\<close> for
  the other codes of 4000 to 4999, \<^verbatim>\<open>GenericError\<close> for 5000 to 5999, and the base
  \<^verbatim>\<open>IPAError\<close> with the text "Unknown error." for a code outside 1000 to 5999. The
  result is a function of the response, and 4001 and 4002 are decided before the band
  4000 to 4999.
\<close>

theorem check_response_bands:
  assumes "\<not> str_in marker (text_of r)"
    and "body_json r = Some (JObj fs)"
    and "map_of fs ''result'' = Some res"
    and "check_truncated res = Inr ()"
    and "map_of fs ''error'' = Some (JObj ef)"
    and "map_of ef ''code'' = Some (JInt code)"
    and "map_of ef ''message'' = Some msg"
  shows "(1000 \<le> code \<and> code \<le> 1999 \<longrightarrow> check_response r = Inl (AuthenticationError msg))
       \<and> (2000 \<le> code \<and> code \<le> 2999 \<longrightarrow> check_response r = Inl (AuthorizationError msg))
       \<and> (3000 \<le> code \<and> code \<le> 3999 \<longrightarrow> check_response r = Inl (InvocationError msg))
       \<and> (code = 4001 \<longrightarrow> check_response r = Inl (NotFoundError msg))
       \<and> (code = 4002 \<longrightarrow> check_response r = Inl (AlreadyExistsError msg))
       \<and> (4000 \<le> code \<and> code \<le> 4999 \<and> code \<noteq> 4001 \<and> code \<noteq> 4002
            \<longrightarrow> check_response r = Inl (ExecutionError msg))
       \<and> (5000 \<le> code \<and> code \<le> 5999 \<longrightarrow> check_response r = Inl (GenericError msg))
       \<and> (code < 1000 \<or> 5999 < code
            \<longrightarrow> check_response r = Inl (IPAError (JStr ''Unknown error.'')))"
proof -
  from assms(6) have "ef \<noteq> []" by auto
  then have "truthy (JObj ef)" by simp
  with assms have cr: "check_response r = classify (JObj ef)"
    by (intro check_response_reaches_classify)
  have rw: "\<And>cls. raise_with cls (JObj ef) = Inl (cls msg)"
    using assms(7) by (rule raise_with_obj)
  show ?thesis
    unfolding cr by (simp add: classify_def assms(6) rw)
qed

theorem check_response_bands_witness:
  "check_response
     \<lparr>text_of = ''{}'',
      body_json = Some (JObj [(''result'', JNull),
        (''error'', JObj [(''code'', JInt 4001), (''message'', JStr ''no such entry'')])])\<rparr>
     = Inl (NotFoundError (JStr ''no such entry''))"
proof -
  let ?ef = "[(''code'', JInt 4001), (''message'', JStr ''no such entry'')]"
  let ?fs = "[(''result'', JNull), (''error'', JObj ?ef)]"
  let ?r = "\<lparr>text_of = ''{}'', body_json = Some (JObj ?fs)\<rparr>"
  have h1: "\<not> str_in marker (text_of ?r)" by (simp add: marker_def)
  have h2: "body_json ?r = Some (JObj ?fs)" by simp
  have h3: "map_of ?fs ''result'' = Some JNull" by simp
  have h4: "check_truncated JNull = Inr ()" by (simp add: check_truncated_def)
  have h5: "map_of ?fs ''error'' = Some (JObj ?ef)" by simp
  have h6: "map_of ?ef ''code'' = Some (JInt 4001)" by simp
  have h7: "map_of ?ef ''message'' = Some (JStr ''no such entry'')" by simp
  from check_response_bands [OF h1 h2 h3 h4 h5 h6 h7] show ?thesis by simp
qed

text \<open>
  Claim C7. Whenever the text of the response contains the credential marker,
  \<^verbatim>\<open>check_response\<close> raises \<^verbatim>\<open>AuthenticationError\<close>, whatever the body is: the test
  comes before \<^verbatim>\<open>response.json()\<close>, so this also holds when the body is not valid JSON.
\<close>

theorem marker_is_authentication:
  "str_in marker (text_of r) \<Longrightarrow>
     check_response r = Inl (AuthenticationError (JStr ''Invalid Kerberos Credentials''))"
  by (simp add: check_response_def)

theorem marker_is_authentication_witness:
  "str_in marker ''<html>Unable to verify your Kerberos credentials</html>''
   \<and> check_response \<lparr>text_of = ''<html>Unable to verify your Kerberos credentials</html>'',
                      body_json = None\<rparr>
       = Inl (AuthenticationError (JStr ''Invalid Kerberos Credentials''))"
proof -
  have h: "str_in marker
             (text_of \<lparr>text_of = ''<html>Unable to verify your Kerberos credentials</html>'',
                       body_json = None\<rparr>)"
    by (simp add: marker_def)
  from marker_is_authentication [OF h] h show ?thesis by simp
qed

text \<open>
  Claim C8, as stated, fails: a response without server error whose result has the
  \<open>truncated\<close> flag makes \<^verbatim>\<open>check_response\<close> raise the base class \<^verbatim>\<open>IPAError\<close>, the one
  also raised for an unknown code, and not \<^verbatim>\<open>GenericError\<close>.
\<close>

theorem truncated_is_not_generic:
  "check_response
     \<lparr>text_of = ''{}'',
      body_json = Some (JObj [(''result'', JObj [(''truncated'', JBool True)]),
                              (''error'', JNull)])\<rparr>
     = Inl (IPAError (JStr ''IPA results truncated.''))
   \<and> IPAError (JStr ''IPA results truncated.'') \<noteq> GenericError (JStr ''IPA results truncated.'')"
  by (simp add: check_response_def marker_def check_truncated_def)

text \<open>
  Claim C8, amended. For every response without the credential marker whose body is a
  JSON object with an object \<open>result\<close> that has a true \<open>truncated\<close> member,
  \<^verbatim>\<open>check_response\<close> raises the base \<^verbatim>\<open>IPAError\<close> with the text "IPA results truncated.",
  whether or not the server reported an error.
\<close>

theorem truncated_raises_IPAError:
  assumes "\<not> str_in marker (text_of r)"
    and "body_json r = Some (JObj fs)"
    and "map_of fs ''result'' = Some (JObj rf)"
    and "map_of rf ''truncated'' = Some t"
    and "truthy t"
  shows "check_response r = Inl (IPAError (JStr ''IPA results truncated.''))"
proof -
  from assms(4) have "rf \<noteq> []" by auto
  with assms show ?thesis
    by (simp add: check_response_def check_truncated_def)
qed

theorem truncated_raises_IPAError_witness:
  "check_response
     \<lparr>text_of = ''{}'',
      body_json = Some (JObj [(''result'', JObj [(''count'', JInt 100), (''truncated'', JBool True)]),
                              (''error'', JNull)])\<rparr>
     = Inl (IPAError (JStr ''IPA results truncated.''))"
proof -
  let ?rf = "[(''count'', JInt 100), (''truncated'', JBool True)]"
  let ?fs = "[(''result'', JObj ?rf), (''error'', JNull)]"
  let ?r = "\<lparr>text_of = ''{}'', body_json = Some (JObj ?fs)\<rparr>"
  have h1: "\<not> str_in marker (text_of ?r)" by (simp add: marker_def)
  have h2: "body_json ?r = Some (JObj ?fs)" by simp
  have h3: "map_of ?fs ''result'' = Some (JObj ?rf)" by simp
  have h4: "map_of ?rf ''truncated'' = Some (JBool True)" by simp
  have h5: "truthy (JBool True)" by simp
  from truncated_raises_IPAError [OF h1 h2 h3 h4 h5] show ?thesis .
qed

section \<open>Properties of the core table and the price table\<close>

lemma cores_of_Inr:
  "cores_of t = Inr c \<longleftrightarrow> map_of CORES (last (split_on CHR ''.'' t)) = Some c"
  by (simp add: cores_of_def split: option.splits)

lemma CORES_pos: "map_of CORES s = Some c \<Longrightarrow> 0 < c"
  by (auto simp: CORES_def split: if_splits)

lemma cores_of_pos: "cores_of t = Inr c \<Longrightarrow> 0 < c"
  by (auto simp: cores_of_Inr dest: CORES_pos)

lemma cores_of_Inl: "cores_of t = Inl e \<Longrightarrow> e = KeyError"
  by (auto simp: cores_of_def split: option.splits)

lemma set_dict_set: "set (dict_set k v d) \<subseteq> insert (k, v) (set d)"
  by (induction d) (auto split: if_splits)

lemma map_of_dict_set: "map_of (dict_set k v d) = (map_of d)(k \<mapsto> v)"
  by (induction d) (auto simp: fun_eq_iff)

lemma dict_set_fresh: "k \<notin> fst ` set d \<Longrightarrow> dict_set k v d = d @ [(k, v)]"
  by (induction d) auto

lemma keys_dict_set_present: "k \<in> fst ` set d \<Longrightarrow> map fst (dict_set k v d) = map fst d"
  by (induction d) force+

lemma fill_prices_ok:
  "fill_prices results r = Inr r' \<Longrightarrow> \<forall>(t, en) \<in> set r. \<forall>x. en = Some x \<longrightarrow> entry_ok t x
     \<Longrightarrow> \<forall>(t, en) \<in> set r'. \<forall>x. en = Some x \<longrightarrow> entry_ok t x"
proof (induction results r arbitrary: r' rule: fill_prices.induct)
  case (1 r)
  then show ?case by simp
next
  case (2 instance_type p results r)
  from "2.prems"(1) obtain c where c: "cores_of instance_type = Inr c"
    by (auto split: sum.splits)
  let ?en = "\<lparr>e_price = p, e_core_price = p / of_int c, e_cores = c\<rparr>"
  have ok: "entry_ok instance_type ?en"
    using c cores_of_pos [OF c] by (simp add: entry_ok_def cores_of_Inr)
  have "\<forall>(t, en) \<in> set (dict_set instance_type (Some ?en) r). \<forall>x. en = Some x \<longrightarrow> entry_ok t x"
    using set_dict_set [of instance_type "Some ?en" r] "2.prems"(2) ok by fastforce
  with "2.IH" [OF c] "2.prems"(1) c show ?case by simp
qed

lemma fill_prices_unknown:
  "(t, p) \<in> set results \<Longrightarrow> map_of CORES (last (split_on CHR ''.'' t)) = None
     \<Longrightarrow> fill_prices results r = Inl KeyError"
proof (induction results r rule: fill_prices.induct)
  case (1 r)
  then show ?case by simp
next
  case (2 instance_type q results r)
  show ?case
  proof (cases "cores_of instance_type")
    case (Inl e)
    then show ?thesis using cores_of_Inl [OF Inl] by simp
  next
    case (Inr c)
    with "2.prems" have "(t, p) \<in> set results"
      by (auto simp: cores_of_Inr)
    with "2.IH" [OF Inr] "2.prems"(2) Inr show ?thesis by simp
  qed
qed

lemma fromkeys_values: "(k, w) \<in> set (foldl (\<lambda>d k. dict_set k v d) d0 ks) \<Longrightarrow> w = v \<or> (k, w) \<in> set d0"
proof (induction ks arbitrary: d0)
  case Nil
  then show ?case by simp
next
  case (Cons a ks)
  from Cons.IH [OF Cons.prems [simplified]] set_dict_set [of a v d0]
  show ?case by auto
qed

lemma fromkeys_set: "(k, w) \<in> set (fromkeys ks v) \<Longrightarrow> w = v"
  using fromkeys_values [of k w v "[]" ks] by (simp add: fromkeys_def)

lemma pricing_loop_ok:
  "pricing_loop api types azs pl = Inr pr \<Longrightarrow> pricing_ok pl \<Longrightarrow> pricing_ok pr"
proof (induction api types azs pl arbitrary: pr rule: pricing_loop.induct)
  case (1 api types price_list)
  then show ?case by simp
next
  case (2 api types az azs price_list)
  from "2.prems"(1) obtain results r where
    g: "get_latest_price api types az = Some results" and
    f: "fill_prices results (fromkeys types None) = Inr r" and
    l: "pricing_loop api types azs (dict_set az r price_list) = Inr pr"
    by (auto split: option.splits sum.splits)
  have "\<forall>(t, en) \<in> set (fromkeys types (None :: entry option)). \<forall>x. en = Some x \<longrightarrow> entry_ok t x"
    by (auto dest: fromkeys_set)
  from fill_prices_ok [OF f this]
  have "\<forall>(t, en) \<in> set r. \<forall>x. en = Some x \<longrightarrow> entry_ok t x" .
  with "2.prems"(2) set_dict_set [of az r price_list]
  have "pricing_ok (dict_set az r price_list)"
    unfolding pricing_ok_def by fastforce
  from "2.IH" [OF g f l this] show ?case .
qed

lemma get_pricing_ok: "get_pricing api types azs = Inr pr \<Longrightarrow> pricing_ok pr"
  unfolding get_pricing_def
  by (erule pricing_loop_ok) (auto simp: pricing_ok_def dest: fromkeys_set)

lemma pricing_loop_unknown:
  "az \<in> set azs \<Longrightarrow> (t, p) \<in> set (api types az) \<Longrightarrow>
   map_of CORES (last (split_on CHR ''.'' t)) = None \<Longrightarrow>
   \<exists>e. pricing_loop api types azs pl = Inl e \<and> (e = KeyError \<or> e = TypeError)"
proof (induction api types azs pl rule: pricing_loop.induct)
  case (1 api types price_list)
  then show ?case by simp
next
  case (2 api types a azs price_list)
  show ?case
  proof (cases "get_latest_price api types a")
    case None
    then show ?thesis by simp
  next
    case (Some results)
    then have res: "results = api types a"
      by (auto simp: get_latest_price_def Let_def split: if_splits)
    show ?thesis
    proof (cases "fill_prices results (fromkeys types None)")
      case (Inl e)
      have "e = KeyError"
      proof -
        have "\<And>rs r e. fill_prices rs r = Inl e \<Longrightarrow> e = KeyError"
        proof -
          fix rs :: "observation list" and r :: row and e
          show "fill_prices rs r = Inl e \<Longrightarrow> e = KeyError"
            by (induction rs r rule: fill_prices.induct)
               (auto split: sum.splits dest: cores_of_Inl)
        qed
        from this [OF Inl] show ?thesis .
      qed
      with Some Inl show ?thesis by simp
    next
      case (Inr r)
      have "a \<noteq> az"
      proof
        assume "a = az"
        with "2.prems" res have "(t, p) \<in> set results" by simp
        from fill_prices_unknown [OF this "2.prems"(3)] Inr show False by simp
      qed
      with "2.prems" have "az \<in> set azs" by simp
      from "2.IH" [OF Some Inr this "2.prems"(2,3)] Some Inr show ?thesis by simp
    qed
  qed
qed

lemma fill_prices_Inl: "fill_prices rs r = Inl e \<Longrightarrow> e = KeyError"
  by (induction rs r rule: fill_prices.induct) (auto split: sum.splits dest: cores_of_Inl)

text \<open>
  Claim C6. \<^verbatim>\<open>cores_of\<close> returns exactly the table entry of the size suffix, which is
  strictly positive, and raises \<^verbatim>\<open>KeyError\<close> (the unknown-size error) when the suffix is
  not in the table. Every priced entry that \<^verbatim>\<open>get_pricing\<close> returns has the core count
  of its type, and its core price is its price divided by that count. Writing the records
  of a zone raises \<^verbatim>\<open>KeyError\<close> as soon as one record has a type of unknown size, so that
  \<^verbatim>\<open>get_pricing\<close> raises instead of returning a table.
\<close>

theorem core_price_normalisation:
  "(cores_of t = Inr c \<longrightarrow> map_of CORES (last (split_on CHR ''.'' t)) = Some c \<and> 0 < c)
   \<and> (map_of CORES (last (split_on CHR ''.'' t)) = None \<longrightarrow> cores_of t = Inl KeyError)
   \<and> (get_pricing api types azs = Inr pr \<and> (az, r) \<in> set pr \<and> (t, Some en) \<in> set r \<longrightarrow>
        cores_of t = Inr (e_cores en) \<and> 0 < e_cores en
        \<and> e_core_price en = e_price en / of_int (e_cores en))
   \<and> (map_of CORES (last (split_on CHR ''.'' t)) = None \<and> (t, p) \<in> set results \<longrightarrow>
        fill_prices results r0 = Inl KeyError)
   \<and> (map_of CORES (last (split_on CHR ''.'' t)) = None \<and> az \<in> set azs
        \<and> (t, p) \<in> set (api types az) \<longrightarrow>
        (\<exists>e. get_pricing api types azs = Inl e))"
proof (intro conjI impI)
  assume h: "cores_of t = Inr c"
  from h show "map_of CORES (last (split_on CHR ''.'' t)) = Some c"
    by (simp add: cores_of_Inr)
  from h show "0 < c"
    by (rule cores_of_pos)
next
  assume "map_of CORES (last (split_on CHR ''.'' t)) = None"
  then show "cores_of t = Inl KeyError" by (simp add: cores_of_def)
next
  assume a: "get_pricing api types azs = Inr pr \<and> (az, r) \<in> set pr \<and> (t, Some en) \<in> set r"
  then have "pricing_ok pr" by (auto dest: get_pricing_ok)
  with a have "entry_ok t en" unfolding pricing_ok_def by fastforce
  then show "cores_of t = Inr (e_cores en)" "0 < e_cores en"
    "e_core_price en = e_price en / of_int (e_cores en)"
    by (auto simp: entry_ok_def cores_of_Inr)
next
  assume "map_of CORES (last (split_on CHR ''.'' t)) = None \<and> (t, p) \<in> set results"
  then show "fill_prices results r0 = Inl KeyError"
    by (auto intro: fill_prices_unknown)
next
  assume "map_of CORES (last (split_on CHR ''.'' t)) = None \<and> az \<in> set azs
        \<and> (t, p) \<in> set (api types az)"
  then show "\<exists>e. get_pricing api types azs = Inl e"
    unfolding get_pricing_def using pricing_loop_unknown by blast
qed

theorem core_price_normalisation_witness:
  "cores_of ''m5.xlarge'' = Inr 4
   \<and> get_pricing (\<lambda>types az. [(''m5.xlarge'', 1 / 10)]) [''m5.xlarge''] [''a'']
       = Inr [(''a'', [(''m5.xlarge'',
                 Some \<lparr>e_price = 1 / 10, e_core_price = 1 / 40, e_cores = 4\<rparr>)])]
   \<and> e_core_price \<lparr>e_price = 1 / 10, e_core_price = 1 / 40, e_cores = 4\<rparr>
       = e_price \<lparr>e_price = 1 / 10, e_core_price = 1 / 40, e_cores = 4\<rparr> / of_int 4
   \<and> cores_of ''m5.huge'' = Inl KeyError
   \<and> fill_prices [(''m5.huge'', 1)] [] = Inl KeyError
   \<and> (\<exists>e. get_pricing (\<lambda>types az. [(''m5.huge'', 1)]) [''m5.huge''] [''a''] = Inl e)"
proof -
  let ?en = "\<lparr>e_price = 1 / 10, e_core_price = 1 / 40, e_cores = 4\<rparr>"
  let ?api = "\<lambda>(types :: string list) (az :: string). [(''m5.xlarge'', 1 / 10 :: rat)]"
  let ?bad = "\<lambda>(types :: string list) (az :: string). [(''m5.huge'', 1 :: rat)]"
  have c: "cores_of ''m5.xlarge'' = Inr 4" by code_simp
  have g: "get_pricing ?api [''m5.xlarge''] [''a''] = Inr [(''a'', [(''m5.xlarge'', Some ?en)])]"
    by code_simp
  have u: "map_of CORES (last (split_on CHR ''.'' ''m5.huge'')) = None" by code_simp
  note known = core_price_normalisation
    [of "''m5.xlarge''" 4 ?api "[''m5.xlarge'']" "[''a'']" "[(''a'', [(''m5.xlarge'', Some ?en)])]"
        "''a''" "[(''m5.xlarge'', Some ?en)]" ?en]
  note unknown = core_price_normalisation
    [of "''m5.huge''" 0 ?bad "[''m5.huge'']" "[''a'']" "[]" "''a''" "[]" ?en 1
        "[(''m5.huge'', 1)]" "[]"]
  from known c g have k: "e_core_price ?en = e_price ?en / of_int 4"
    by simp
  from unknown u have b: "cores_of ''m5.huge'' = Inl KeyError"
    "fill_prices [(''m5.huge'', 1)] [] = Inl KeyError"
    "\<exists>e. get_pricing ?bad [''m5.huge''] [''a''] = Inl e"
    by simp_all
  from c g k b show ?thesis by simp
qed

lemma keys_dict_set: "fst ` set (dict_set k v d) = insert k (fst ` set d)"
proof -
  have "dom (map_of (dict_set k v d)) = insert k (dom (map_of d))"
    by (simp add: map_of_dict_set)
  then show ?thesis by (simp add: dom_map_of_conv_image_fst)
qed

lemma distinct_dict_set: "distinct (map fst d) \<Longrightarrow> distinct (map fst (dict_set k v d))"
proof (induction d)
  case Nil
  then show ?case by simp
next
  case (Cons x d)
  obtain k' v' where x: "x = (k', v')" by (cases x)
  show ?case
  proof (cases "k' = k")
    case True
    with Cons.prems x show ?thesis by simp
  next
    case False
    have "k' \<notin> fst ` set (dict_set k v d)"
      using Cons.prems x False by (simp add: keys_dict_set)
    with Cons x False show ?thesis by simp
  qed
qed

lemma fromkeys_fold:
  "distinct (map fst d0) \<Longrightarrow>
   distinct (map fst (foldl (\<lambda>d k. dict_set k v d) d0 ks))
   \<and> fst ` set (foldl (\<lambda>d k. dict_set k v d) d0 ks) = fst ` set d0 \<union> set ks"
  by (induction ks arbitrary: d0) (auto simp: distinct_dict_set keys_dict_set)

lemma distinct_fromkeys: "distinct (map fst (fromkeys ks v))"
  using fromkeys_fold [of "[]" v ks] by (simp add: fromkeys_def)

lemma keys_fromkeys: "fst ` set (fromkeys ks v) = set ks"
  using fromkeys_fold [of "[]" v ks] by (simp add: fromkeys_def)

lemma map_of_fromkeys: "map_of (fromkeys ks v) k = (if k \<in> set ks then Some v else None)"
proof (cases "k \<in> set ks")
  case True
  then have "k \<in> fst ` set (fromkeys ks v)" by (simp add: keys_fromkeys)
  then obtain w where w: "(k, w) \<in> set (fromkeys ks v)" by auto
  then have "w = v" by (rule fromkeys_set)
  with w distinct_fromkeys [of ks v] True show ?thesis by simp
next
  case False
  then have "k \<notin> fst ` set (fromkeys ks v)" by (simp add: keys_fromkeys)
  with False show ?thesis by (simp add: map_of_eq_None_iff)
qed

lemma fill_prices_row:
  "fill_prices results r0 = Inr r \<Longrightarrow>
     (distinct (map fst r0) \<longrightarrow> distinct (map fst r))
   \<and> fst ` set r = fst ` set r0 \<union> fst ` set results
   \<and> (\<forall>t. t \<notin> fst ` set results \<longrightarrow> map_of r t = map_of r0 t)
   \<and> (\<forall>t. t \<in> fst ` set results \<longrightarrow> (\<exists>en. map_of r t = Some (Some en)))"
proof (induction results r0 arbitrary: r rule: fill_prices.induct)
  case (1 r0)
  then show ?case by simp
next
  case (2 instance_type p results r0)
  from "2.prems" obtain c where c: "cores_of instance_type = Inr c"
    by (auto split: sum.splits)
  let ?en = "\<lparr>e_price = p, e_core_price = p / of_int c, e_cores = c\<rparr>"
  let ?r1 = "dict_set instance_type (Some ?en) r0"
  from "2.prems" c have f: "fill_prices results ?r1 = Inr r" by simp
  note IH = "2.IH" [OF c f]
  have a: "distinct (map fst r0) \<longrightarrow> distinct (map fst r)"
    using IH by (simp add: distinct_dict_set)
  have b: "fst ` set r = fst ` set ((instance_type, p) # results) \<union> fst ` set r0"
    using IH by (auto simp: keys_dict_set)
  have d: "\<forall>t. t \<notin> fst ` set ((instance_type, p) # results) \<longrightarrow> map_of r t = map_of r0 t"
    using IH by (auto simp: map_of_dict_set)
  have e: "\<forall>t. t \<in> fst ` set ((instance_type, p) # results) \<longrightarrow> (\<exists>en. map_of r t = Some (Some en))"
  proof (intro allI impI)
    fix t assume t: "t \<in> fst ` set ((instance_type, p) # results)"
    show "\<exists>en. map_of r t = Some (Some en)"
    proof (cases "t \<in> fst ` set results")
      case True
      with IH show ?thesis by blast
    next
      case False
      with t have "t = instance_type" by auto
      with False IH have "map_of r t = map_of ?r1 instance_type" by simp
      then show ?thesis by (simp add: map_of_dict_set)
    qed
  qed
  from a b d e show ?case by blast
qed

lemma get_latest_price_Some:
  "get_latest_price api types az = Some results \<longleftrightarrow> results = api types az \<and> api types az \<noteq> []"
  by (auto simp: get_latest_price_def Let_def)

lemma pricing_loop_rows:
  "pricing_loop api types azs pl = Inr pr \<Longrightarrow>
     (distinct (map fst pl) \<longrightarrow> distinct (map fst pr))
   \<and> fst ` set pr = fst ` set pl \<union> set azs
   \<and> (\<forall>az. az \<notin> set azs \<longrightarrow> map_of pr az = map_of pl az)
   \<and> (\<forall>az. az \<in> set azs \<longrightarrow> (\<exists>r. map_of pr az = Some r \<and> filled api types az r))"
proof (induction api types azs pl arbitrary: pr rule: pricing_loop.induct)
  case (1 api types price_list)
  then show ?case by simp
next
  case (2 api types a azs price_list)
  from "2.prems" obtain results r where
    g: "get_latest_price api types a = Some results" and
    f: "fill_prices results (fromkeys types None) = Inr r" and
    l: "pricing_loop api types azs (dict_set a r price_list) = Inr pr"
    by (auto split: option.splits sum.splits)
  note IH = "2.IH" [OF g f l]
  from g f have fa: "filled api types a r"
    by (simp add: filled_def get_latest_price_Some)
  have p1: "distinct (map fst price_list) \<longrightarrow> distinct (map fst pr)"
    using IH by (simp add: distinct_dict_set)
  have p2: "fst ` set pr = fst ` set price_list \<union> set (a # azs)"
    using IH by (auto simp: keys_dict_set)
  have p3: "\<forall>az. az \<notin> set (a # azs) \<longrightarrow> map_of pr az = map_of price_list az"
    using IH by (auto simp: map_of_dict_set)
  have p4: "\<forall>az. az \<in> set (a # azs) \<longrightarrow> (\<exists>r. map_of pr az = Some r \<and> filled api types az r)"
  proof (intro allI impI)
    fix az assume az: "az \<in> set (a # azs)"
    show "\<exists>r. map_of pr az = Some r \<and> filled api types az r"
    proof (cases "az \<in> set azs")
      case True
      with IH show ?thesis by blast
    next
      case False
      with az have "az = a" by simp
      with False IH have "map_of pr az = map_of (dict_set a r price_list) a" by simp
      with fa \<open>az = a\<close> show ?thesis by (simp add: map_of_dict_set)
    qed
  qed
  from p1 p2 p3 p4 show ?case by blast
qed

lemma get_pricing_rows:
  assumes "get_pricing api types azs = Inr pr"
  shows "distinct (map fst pr)"
    and "fst ` set pr = set azs"
    and "(az, r) \<in> set pr \<Longrightarrow> az \<in> set azs \<and> filled api types az r"
proof -
  from assms have l: "pricing_loop api types azs (fromkeys azs []) = Inr pr"
    by (simp add: get_pricing_def)
  note rows = pricing_loop_rows [OF l]
  from rows show d: "distinct (map fst pr)" by (simp add: distinct_fromkeys)
  from rows show k: "fst ` set pr = set azs" by (simp add: keys_fromkeys)
  assume m: "(az, r) \<in> set pr"
  with k have az: "az \<in> set azs" by force
  with rows obtain r' where "map_of pr az = Some r'" "filled api types az r'" by blast
  moreover from m d have "map_of pr az = Some r" by simp
  ultimately show "az \<in> set azs \<and> filled api types az r" using az by simp
qed

lemma filled_row:
  assumes "filled api types az r"
  shows "distinct (map fst r)"
    and "fst ` set r = set types \<union> fst ` set (api types az)"
    and "(t, None) \<in> set r \<longleftrightarrow> t \<in> set types \<and> t \<notin> fst ` set (api types az)"
    and "(\<exists>en. (t, Some en) \<in> set r) \<longleftrightarrow> t \<in> fst ` set (api types az)"
proof -
  from assms have f: "fill_prices (api types az) (fromkeys types None) = Inr r"
    by (simp add: filled_def)
  note row = fill_prices_row [OF f]
  from row show d: "distinct (map fst r)" by (simp add: distinct_fromkeys)
  from row show "fst ` set r = set types \<union> fst ` set (api types az)"
    by (simp add: keys_fromkeys)
  have mem: "\<And>x. (t, x) \<in> set r \<longleftrightarrow> map_of r t = Some x"
    using d by simp
  show "(t, None) \<in> set r \<longleftrightarrow> t \<in> set types \<and> t \<notin> fst ` set (api types az)"
  proof (cases "t \<in> fst ` set (api types az)")
    case True
    with row obtain en where "map_of r t = Some (Some en)" by blast
    with True show ?thesis by (simp add: mem)
  next
    case False
    with row have "map_of r t = map_of (fromkeys types None) t" by blast
    with False show ?thesis by (simp add: mem map_of_fromkeys)
  qed
  show "(\<exists>en. (t, Some en) \<in> set r) \<longleftrightarrow> t \<in> fst ` set (api types az)"
  proof (cases "t \<in> fst ` set (api types az)")
    case True
    with row obtain en where "map_of r t = Some (Some en)" by blast
    with True show ?thesis by (auto simp: mem)
  next
    case False
    with row have "map_of r t = map_of (fromkeys types None) t" by blast
    with False show ?thesis by (simp add: mem map_of_fromkeys)
  qed
qed

lemma fill_prices_succeeds:
  "\<forall>(t, p) \<in> set results. \<exists>c. cores_of t = Inr c \<Longrightarrow> \<exists>r. fill_prices results r0 = Inr r"
proof (induction results r0 rule: fill_prices.induct)
  case (1 r)
  then show ?case by simp
next
  case (2 instance_type p results r)
  from "2.prems" obtain c where c: "cores_of instance_type = Inr c" by auto
  from "2.IH" [OF c] "2.prems" c show ?case by simp
qed

lemma pricing_loop_succeeds:
  "\<forall>az \<in> set azs. api types az \<noteq> [] \<and> (\<forall>(t, p) \<in> set (api types az). \<exists>c. cores_of t = Inr c)
     \<Longrightarrow> \<exists>pr. pricing_loop api types azs pl = Inr pr"
proof (induction api types azs pl rule: pricing_loop.induct)
  case (1 api types price_list)
  then show ?case by simp
next
  case (2 api types az azs price_list)
  from "2.prems" have g: "get_latest_price api types az = Some (api types az)"
    by (simp add: get_latest_price_Some)
  from "2.prems" have "\<forall>(t, p) \<in> set (api types az). \<exists>c. cores_of t = Inr c" by simp
  from fill_prices_succeeds [OF this] obtain r where
    f: "fill_prices (api types az) (fromkeys types None) = Inr r" by blast
  from "2.IH" [OF g f] "2.prems" g f show ?case by simp
qed

section \<open>Properties of the candidate set and the ranking\<close>

lemma flat_iff:
  "(k, az, t) \<in> set (flat pr) \<longleftrightarrow>
     (\<exists>r en. (az, r) \<in> set pr \<and> (t, en) \<in> set r \<and> k = map_option e_core_price en)"
  by (fastforce simp: flat_def)

lemma group_add_choice:
  "group (add_choice k p ch) k' = (if k' = k then insert p (group ch k) else group ch k')"
  by (auto simp: group_def add_choice_def map_of_dict_set split: option.splits)

lemma keys_add_choice: "fst ` set (add_choice k p ch) = insert k (fst ` set ch)"
  by (auto simp: add_choice_def keys_dict_set split: option.splits)

lemma add_choices_fold:
  "group (foldl (\<lambda>ch (k, p). add_choice k p ch) ch0 xs) k = group ch0 k \<union> {p. (k, p) \<in> set xs}
   \<and> fst ` set (foldl (\<lambda>ch (k, p). add_choice k p ch) ch0 xs) = fst ` set ch0 \<union> fst ` set xs"
proof (induction xs arbitrary: ch0)
  case Nil
  then show ?case by simp
next
  case (Cons x xs)
  obtain k' p' where x: "x = (k', p')" by (cases x)
  from Cons [of "add_choice k' p' ch0"] x show ?case
    by (auto simp: group_add_choice keys_add_choice split: if_splits)
qed

lemma row_fold:
  "foldl (\<lambda>choices (instance_type, en).
       add_choice (map_option e_core_price en) (az, instance_type) choices) ch (r :: row)
   = foldl (\<lambda>ch (k, p). add_choice k p ch) ch
       (map (\<lambda>(t, en). (map_option e_core_price en, (az, t))) r)"
  by (induction r arbitrary: ch) (auto simp: case_prod_beta)

lemma pricing_fold:
  "foldl (\<lambda>choices (az, r).
      foldl (\<lambda>choices (instance_type, en).
         add_choice (map_option e_core_price en) (az, instance_type) choices) choices r)
     ch (pr :: pricing)
   = foldl (\<lambda>ch (k, p). add_choice k p ch) ch (flat pr)"
proof (induction pr arbitrary: ch)
  case Nil
  then show ?case by (simp add: flat_def)
next
  case (Cons x pr)
  obtain az r where x: "x = (az, r)" by (cases x)
  from Cons [of "foldl (\<lambda>ch (k, p). add_choice k p ch) ch
             (map (\<lambda>(t, en). (map_option e_core_price en, (az, t))) r)"] x
  show ?case by (simp add: flat_def row_fold)
qed

lemma sort_by_price_fold:
  "sort_by_price pr = foldl (\<lambda>ch (k, p). add_choice k p ch) [] (flat pr)"
  unfolding sort_by_price_def by (rule pricing_fold)

lemma sort_by_price_groups:
  "group (sort_by_price pr) k = {p. (k, p) \<in> set (flat pr)}"
  "fst ` set (sort_by_price pr) = fst ` set (flat pr)"
  using add_choices_fold [of "[]" "flat pr" k]
  by (simp_all add: sort_by_price_fold group_def)

lemma extend_all_set:
  "extend_all pl ks acc = Inr out \<Longrightarrow> set out = set acc \<union> (\<Union>k\<in>set ks. group pl k)"
proof (induction pl ks acc arbitrary: out rule: extend_all.induct)
  case (1 price_list choices)
  then show ?case by simp
next
  case (2 price_list pr ks choices)
  from "2.prems" obtain ps where ps: "map_of price_list pr = Some ps"
    and e: "extend_all price_list ks (choices @ ps) = Inr out"
    by (auto split: option.splits)
  from "2.IH" [OF ps e] ps show ?case by (auto simp: group_def)
qed

lemma extend_all_succeeds:
  "set ks \<subseteq> fst ` set pl \<Longrightarrow> \<exists>out. extend_all pl ks acc = Inr out"
proof (induction pl ks acc rule: extend_all.induct)
  case (1 price_list choices)
  then show ?case by simp
next
  case (2 price_list pr ks choices)
  from "2.prems" have "pr \<in> fst ` set price_list" by simp
  then obtain ps where ps: "map_of price_list pr = Some ps"
    by (metis domD dom_map_of_conv_image_fst)
  from "2.IH" [OF ps] "2.prems" ps show ?case by simp
qed

lemma ranking_Inr:
  assumes "ranking api types azs = Inr choices"
  shows "\<exists>pr. get_pricing api types azs = Inr pr
           \<and> \<not> (None \<in> fst ` set (flat pr) \<and> 2 \<le> length (sort_by_price pr))
           \<and> set choices = snd ` set (flat pr)"
proof -
  from assms obtain pr ks where
    g: "get_pricing api types azs = Inr pr" and
    s: "sorted_prices (map fst (sort_by_price pr)) = Inr ks" and
    e: "extend_all (sort_by_price pr) ks [] = Inr choices"
    by (auto simp: ranking_def Let_def split: sum.splits)
  from s have no: "\<not> (None \<in> set (map fst (sort_by_price pr)) \<and> 2 \<le> length (sort_by_price pr))"
    and ks: "ks = sort (map fst (sort_by_price pr))"
    by (auto simp: sorted_prices_def split: if_splits)
  from ks have "set ks = fst ` set (flat pr)"
    by (simp add: sort_by_price_groups)
  with extend_all_set [OF e]
  have "set choices = (\<Union>k\<in>fst ` set (flat pr). {p. (k, p) \<in> set (flat pr)})"
    by (simp add: sort_by_price_groups)
  also have "\<dots> = snd ` set (flat pr)" by force
  finally have "set choices = snd ` set (flat pr)" .
  with g no show ?thesis by (auto simp: sort_by_price_groups)
qed

lemma ranking_succeeds:
  assumes "get_pricing api types azs = Inr pr" and "None \<notin> fst ` set (flat pr)"
  shows "\<exists>choices. ranking api types azs = Inr choices"
proof -
  from assms(2) have s: "sorted_prices (map fst (sort_by_price pr))
                        = Inr (sort (map fst (sort_by_price pr)))"
    by (simp add: sorted_prices_def sort_by_price_groups)
  have "set (sort (map fst (sort_by_price pr))) \<subseteq> fst ` set (sort_by_price pr)"
    by simp
  from extend_all_succeeds [OF this, of "[]"] assms(1) s show ?thesis
    by (simp add: ranking_def Let_def)
qed

lemma ranking_pairs:
  assumes "ranking api types azs = Inr choices" and "(az, t) \<in> set choices"
  shows "az \<in> set azs \<and> (t \<in> set types \<or> t \<in> fst ` set (api types az))"
proof -
  from ranking_Inr [OF assms(1)] obtain pr where
    g: "get_pricing api types azs = Inr pr" and s: "set choices = snd ` set (flat pr)"
    by blast
  from assms(2) s obtain k where "(k, az, t) \<in> set (flat pr)" by force
  then obtain r en where r: "(az, r) \<in> set pr" and t: "(t, en) \<in> set r"
    by (auto simp: flat_iff)
  from get_pricing_rows(3) [OF g r] have az: "az \<in> set azs" and f: "filled api types az r"
    by simp_all
  from t have "t \<in> fst ` set r" by force
  with filled_row(2) [OF f] az show ?thesis by auto
qed

lemma group_mem:
  "p \<in> group ch k \<longleftrightarrow> (\<exists>ps. map_of ch k = Some ps \<and> p \<in> set ps)"
  by (auto simp: group_def split: option.splits)

text \<open>
  Claim C3, as stated, fails: a type without record in a zone keeps the empty entry that
  \<^verbatim>\<open>get_pricing\<close> stored for it, and \<^verbatim>\<open>sort_by_price\<close> puts the pair into the
  candidate set under the price \<^verbatim>\<open>None\<close>. (Ranking these candidates then raises
  \<^verbatim>\<open>TypeError\<close>.)
\<close>

theorem unpriced_pair_is_candidate:
  "get_pricing (\<lambda>types az. [(''m5.xlarge'', 1 / 10)]) [''m5.large'', ''m5.xlarge''] [''a'']
     = Inr [(''a'', [(''m5.large'', None),
                     (''m5.xlarge'',
                      Some \<lparr>e_price = 1 / 10, e_core_price = 1 / 40, e_cores = 4\<rparr>)])]
   \<and> sort_by_price
        [(''a'', [(''m5.large'', None),
                  (''m5.xlarge'',
                   Some \<lparr>e_price = 1 / 10, e_core_price = 1 / 40, e_cores = 4\<rparr>)])]
     = [(None, [(''a'', ''m5.large'')]), (Some (1 / 40), [(''a'', ''m5.xlarge'')])]
   \<and> get_cheap_cores (\<lambda>types az. [(''m5.xlarge'', 1 / 10)]) 100
        [''m5.large'', ''m5.xlarge''] [''a''] 1
     = Inl TypeError"
  by code_simp

lemma ranking_observed:
  assumes rk: "ranking api T Z = Inr choices" and mem: "(az, t) \<in> set choices"
  shows "t \<in> fst ` set (api T az)"
proof -
  from ranking_Inr [OF rk] obtain pr where
    g: "get_pricing api T Z = Inr pr" and
    no: "\<not> (None \<in> fst ` set (flat pr) \<and> 2 \<le> length (sort_by_price pr))" and
    s: "set choices = snd ` set (flat pr)"
    by blast
  from mem s obtain k where k: "(k, az, t) \<in> set (flat pr)" by force
  then obtain r x where r: "(az, r) \<in> set pr" and x: "(t, x) \<in> set r"
    and kx: "k = map_option e_core_price x"
    by (auto simp: flat_iff)
  from get_pricing_rows(3) [OF g r] have f: "filled api T az r" by simp
  show ?thesis
  proof (cases x)
    case (Some en)
    with x have "(t, Some en) \<in> set r" by simp
    with filled_row(4) [OF f, of t] show ?thesis by blast
  next
    case None
    with k kx have n: "None \<in> fst ` set (flat pr)" by force
    from f have "api T az \<noteq> []" by (simp add: filled_def)
    then obtain t' where "t' \<in> fst ` set (api T az)"
      by (cases "api T az") auto
    with filled_row(4) [OF f, of t'] obtain en where "(t', Some en) \<in> set r" by blast
    with r have "(Some (e_core_price en), az, t') \<in> set (flat pr)"
      by (force simp: flat_iff)
    then have "Some (e_core_price en) \<in> fst ` set (sort_by_price pr)"
      by (force simp: sort_by_price_groups)
    moreover from n have "None \<in> fst ` set (sort_by_price pr)"
      by (simp add: sort_by_price_groups)
    ultimately have "{None, Some (e_core_price en)} \<subseteq> set (map fst (sort_by_price pr))"
      by simp
    then have "card {None, Some (e_core_price en)} \<le> card (set (map fst (sort_by_price pr)))"
      by (intro card_mono) auto
    also have "\<dots> \<le> length (map fst (sort_by_price pr))" by (rule card_length)
    finally have "2 \<le> length (sort_by_price pr)" by simp
    with no n show ?thesis by simp
  qed
qed

lemma unpriced_pair_groups:
  assumes "get_pricing api T Z = Inr pr"
    and "az \<in> set Z" and "t \<in> set T" and "t \<notin> fst ` set (api T az)"
  shows "(\<exists>ps. map_of (sort_by_price pr) None = Some ps \<and> (az, t) \<in> set ps)
       \<and> (\<forall>q ps. map_of (sort_by_price pr) (Some q) = Some ps \<longrightarrow> (az, t) \<notin> set ps)"
proof -
  from assms(2) get_pricing_rows(2) [OF assms(1)] obtain r where r: "(az, r) \<in> set pr"
    by force
  from get_pricing_rows(3) [OF assms(1) r] have f: "filled api T az r" by simp
  from filled_row(3) [OF f, of t] assms(3,4) have none: "(t, None) \<in> set r" by simp
  with r have "(None, az, t) \<in> set (flat pr)"
    by (force simp: flat_iff)
  then have "(az, t) \<in> group (sort_by_price pr) None"
    by (simp add: sort_by_price_groups)
  then have 1: "\<exists>ps. map_of (sort_by_price pr) None = Some ps \<and> (az, t) \<in> set ps"
    by (simp add: group_mem)
  have nosome: "\<And>q. (Some q, az, t) \<notin> set (flat pr)"
  proof
    fix q assume "(Some q, az, t) \<in> set (flat pr)"
    then obtain r' x where r': "(az, r') \<in> set pr" and x: "(t, x) \<in> set r'"
      and q: "Some q = map_option e_core_price x"
      by (auto simp: flat_iff)
    from q obtain en where "x = Some en" by (cases x) auto
    with x have en: "(t, Some en) \<in> set r'" by simp
    from get_pricing_rows(3) [OF assms(1) r'] have "filled api T az r'" by simp
    from filled_row(4) [OF this, of t] en assms(4) show False by blast
  qed
  have 2: "\<forall>q ps. map_of (sort_by_price pr) (Some q) = Some ps \<longrightarrow> (az, t) \<notin> set ps"
  proof (intro allI impI)
    fix q ps assume m: "map_of (sort_by_price pr) (Some q) = Some ps"
    show "(az, t) \<notin> set ps"
    proof
      assume "(az, t) \<in> set ps"
      with m have "(az, t) \<in> group (sort_by_price pr) (Some q)"
        by (auto simp: group_mem)
      then have "(Some q, az, t) \<in> set (flat pr)"
        by (simp add: sort_by_price_groups)
      with nosome show False by blast
    qed
  qed
  from 1 2 show ?thesis by blast
qed

text \<open>
  Claim C3, amended. For every zone of \<open>Z\<close> and every candidate type without record in
  that zone, in the table that \<^verbatim>\<open>get_pricing\<close> returns: the pair is in the candidate
  set of \<^verbatim>\<open>sort_by_price\<close> under the price \<^verbatim>\<open>None\<close> and under no numeric price (zero
  or other). Every pair of a ranking that \<^verbatim>\<open>get_cheap_cores\<close> walks has a record in its
  zone, so a pair without record is in no such ranking.
\<close>

theorem unpriced_pair_under_None:
  "(get_pricing api T Z = Inr pr \<and> az \<in> set Z \<and> t \<in> set T \<and> t \<notin> fst ` set (api T az) \<longrightarrow>
      (\<exists>ps. map_of (sort_by_price pr) None = Some ps \<and> (az, t) \<in> set ps)
    \<and> (\<forall>q ps. map_of (sort_by_price pr) (Some q) = Some ps \<longrightarrow> (az, t) \<notin> set ps))
   \<and> (ranking api T Z = Inr choices \<and> (az, t) \<in> set choices \<longrightarrow> t \<in> fst ` set (api T az))"
proof (intro conjI impI)
  assume a: "get_pricing api T Z = Inr pr \<and> az \<in> set Z \<and> t \<in> set T
               \<and> t \<notin> fst ` set (api T az)"
  then have g: "get_pricing api T Z = Inr pr" and z: "az \<in> set Z" and t: "t \<in> set T"
    and u: "t \<notin> fst ` set (api T az)"
    by simp_all
  from unpriced_pair_groups [OF g z t u]
  show "\<exists>ps. map_of (sort_by_price pr) None = Some ps \<and> (az, t) \<in> set ps"
    and "\<forall>q ps. map_of (sort_by_price pr) (Some q) = Some ps \<longrightarrow> (az, t) \<notin> set ps"
    by blast+
next
  assume "ranking api T Z = Inr choices \<and> (az, t) \<in> set choices"
  then show "t \<in> fst ` set (api T az)"
    using ranking_observed by blast
qed

theorem unpriced_pair_under_None_witness:
  "(\<exists>ps. map_of (sort_by_price
            [(''a'', [(''m5.large'', None),
                      (''m5.xlarge'',
                       Some \<lparr>e_price = 1 / 10, e_core_price = 1 / 40, e_cores = 4\<rparr>)])]) None
          = Some ps \<and> (''a'', ''m5.large'') \<in> set ps)
   \<and> ranking (\<lambda>types az. [(''m5.large'', 1 / 10), (''m5.xlarge'', 1 / 10)])
        [''m5.large'', ''m5.xlarge''] [''a'']
       = Inr [(''a'', ''m5.xlarge''), (''a'', ''m5.large'')]
   \<and> ''m5.large'' \<in> fst ` set [(''m5.large'', 1 / 10 :: rat), (''m5.xlarge'', 1 / 10)]"
proof -
  let ?api = "\<lambda>(types :: string list) (az :: string). [(''m5.xlarge'', 1 / 10 :: rat)]"
  let ?full = "\<lambda>(types :: string list) (az :: string).
                  [(''m5.large'', 1 / 10 :: rat), (''m5.xlarge'', 1 / 10)]"
  let ?pr = "[(''a'', [(''m5.large'', None),
                      (''m5.xlarge'',
                       Some \<lparr>e_price = 1 / 10, e_core_price = 1 / 40, e_cores = 4\<rparr>)])]"
  have g: "get_pricing ?api [''m5.large'', ''m5.xlarge''] [''a''] = Inr ?pr"
    by code_simp
  have h: "get_pricing ?api [''m5.large'', ''m5.xlarge''] [''a''] = Inr ?pr
           \<and> ''a'' \<in> set [''a''] \<and> ''m5.large'' \<in> set [''m5.large'', ''m5.xlarge'']
           \<and> ''m5.large'' \<notin> fst ` set (?api [''m5.large'', ''m5.xlarge''] ''a'')"
    using g by simp
  have rk: "ranking ?full [''m5.large'', ''m5.xlarge''] [''a'']
            = Inr [(''a'', ''m5.xlarge''), (''a'', ''m5.large'')]"
    by code_simp
  have k: "ranking ?full [''m5.large'', ''m5.xlarge''] [''a'']
            = Inr [(''a'', ''m5.xlarge''), (''a'', ''m5.large'')]
           \<and> (''a'', ''m5.large'') \<in> set [(''a'', ''m5.xlarge''), (''a'', ''m5.large'')]"
    using rk by simp
  from unpriced_pair_under_None
         [of ?api "[''m5.large'', ''m5.xlarge'']" "[''a'']" ?pr "''a''" "''m5.large''" "[]"] h
  have 1: "\<exists>ps. map_of (sort_by_price ?pr) None = Some ps \<and> (''a'', ''m5.large'') \<in> set ps"
    by blast
  from unpriced_pair_under_None
         [of ?full "[''m5.large'', ''m5.xlarge'']" "[''a'']" "[]" "''a''" "''m5.large''"
             "[(''a'', ''m5.xlarge''), (''a'', ''m5.large'')]"] k
  have 2: "''m5.large'' \<in> fst ` set (?full [''m5.large'', ''m5.xlarge''] ''a'')"
    by blast
  from 1 rk 2 show ?thesis by simp
qed

section \<open>Properties of get_cheap_cores\<close>

lemma cores_list_Inr: "cores_list ts = Inr cs \<Longrightarrow> map cores_of ts = map Inr cs"
  by (induction ts arbitrary: cs) (auto split: sum.splits)

text \<open>
  Claim C4. Whenever \<^verbatim>\<open>get_cheap_cores\<close> returns a plan, the plan is the result of the
  walk over the ranking started with \<open>cores_per_az = base * smallest\<close> and the spare cores
  \<open>remainder\<close>, where \<open>smallest\<close> is the least core count over all the candidate types
  and \<open>(base, remainder) = divmod(R, smallest * m)\<close>.
\<close>

theorem cheap_cores_baseline:
  assumes "get_cheap_cores api R T Z m = Inr plan"
  shows "\<exists>choices cs st.
           ranking api T Z = Inr choices
         \<and> map cores_of T = map Inr cs \<and> cs \<noteq> []
         \<and> walk (R div (Min (set cs) * m) * Min (set cs)) m choices
              \<lparr>result = [], left_cores = 0, spare_cores = R mod (Min (set cs) * m)\<rparr> = Inr st
         \<and> plan = result st"
proof -
  from assms obtain choices cs smallest cpa spare st where
    r: "ranking api T Z = Inr choices" and
    c: "cores_list T = Inr cs" and
    m: "py_min cs = Inr smallest" and
    d: "py_divmod R (smallest * m) = Inr (cpa, spare)" and
    w: "walk (cpa * smallest) m choices \<lparr>result = [], left_cores = 0, spare_cores = spare\<rparr> = Inr st" and
    p: "plan = result st"
    by (auto simp: get_cheap_cores_def split: sum.splits prod.splits)
  from m have ne: "cs \<noteq> []" and s: "smallest = Min (set cs)"
    by (auto simp: py_min_def min_list_Min split: if_splits)
  from d have "cpa = R div (smallest * m)" "spare = R mod (smallest * m)"
    by (auto simp: py_divmod_def split: if_splits)
  with r c ne s w p show ?thesis
    by (auto simp: cores_list_Inr)
qed

theorem cheap_cores_baseline_witness:
  "\<exists>choices cs st.
      ranking (\<lambda>types az. [(''m5.large'', 1 / 10), (''m5.xlarge'', 1 / 10)])
         [''m5.large'', ''m5.xlarge''] [''a'', ''b'', ''c''] = Inr choices
    \<and> map cores_of [''m5.large'', ''m5.xlarge''] = map Inr cs \<and> cs \<noteq> []
    \<and> walk (100 div (Min (set cs) * 3) * Min (set cs)) 3 choices
         \<lparr>result = [], left_cores = 0, spare_cores = 100 mod (Min (set cs) * 3)\<rparr> = Inr st
    \<and> [(''a|m5.xlarge'', 9), (''b|m5.xlarge'', 8), (''c|m5.xlarge'', 8)] = result st"
proof -
  have "get_cheap_cores (\<lambda>types az. [(''m5.large'', 1 / 10), (''m5.xlarge'', 1 / 10)]) 100
          [''m5.large'', ''m5.xlarge''] [''a'', ''b'', ''c''] 3
        = Inr [(''a|m5.xlarge'', 9), (''b|m5.xlarge'', 8), (''c|m5.xlarge'', 8)]"
    by code_simp
  from cheap_cores_baseline [OF this] show ?thesis .
qed

lemma str_in_sublist: "str_in sub s \<longleftrightarrow> sublist sub s"
  by (induction s) (auto simp: sublist_Cons_right)

lemma str_in_choice_key: "str_in az (choice_key az t)"
  by (simp add: str_in_sublist choice_key_def)

lemma dict_set_twice: "dict_set k v (dict_set k w d) = dict_set k v d"
  by (induction d) auto

lemma dict_set_same: "map_of d k = Some v \<Longrightarrow> dict_set k v d = d"
  by (induction d) (auto split: if_splits)

lemma dict_set_last: "k \<notin> fst ` set d \<Longrightarrow> dict_set k v (d @ [(k, w)]) = d @ [(k, v)]"
  by (induction d) auto

lemma map_of_last: "k \<notin> fst ` set d \<Longrightarrow> map_of (d @ [(k, w)]) k = Some w"
  by (induction d) auto

lemma whole_units_effect:
  "cores_of t = Inr c \<Longrightarrow> map_of (result st) ch = Some n \<Longrightarrow>
   \<exists>k. 0 \<le> k
     \<and> whole_units t ch st
         = Inr (st\<lparr>left_cores := left_cores st - k * c, result := dict_set ch (n + k) (result st)\<rparr>)
     \<and> (0 \<le> left_cores st \<longrightarrow> 0 \<le> left_cores st - k * c)"
proof (induction t ch st arbitrary: n rule: whole_units.induct)
  case (1 t ch st)
  show ?case
  proof (cases "c \<le> left_cores st")
    case False
    with "1.prems" have "whole_units t ch st = Inr st"
      by (simp add: whole_units.simps)
    moreover have "st\<lparr>left_cores := left_cores st - 0 * c, result := dict_set ch (n + 0) (result st)\<rparr> = st"
      using "1.prems"(2) by (simp add: dict_set_same)
    ultimately show ?thesis
      by (intro exI [of _ 0]) simp
  next
    case True
    let ?r = "dict_set ch (n + 1) (result st)"
    let ?st = "st\<lparr>left_cores := left_cores st - c, result := ?r\<rparr>"
    have inc: "dict_incr ch (result st) = Inr ?r"
      using "1.prems"(2) by (simp add: dict_incr_def)
    have look: "map_of (result ?st) ch = Some (n + 1)"
      by (simp add: map_of_dict_set)
    from "1.IH" [OF "1.prems"(1) True inc "1.prems"(1) look]
    obtain k where k: "0 \<le> k"
      and w: "whole_units t ch ?st
              = Inr (?st\<lparr>left_cores := left_cores ?st - k * c,
                          result := dict_set ch (n + 1 + k) (result ?st)\<rparr>)"
      and nn: "0 \<le> left_cores ?st \<longrightarrow> 0 \<le> left_cores ?st - k * c"
      by blast
    have unf: "whole_units t ch st = whole_units t ch ?st"
      using "1.prems"(1) True inc by (subst whole_units.simps) simp
    have "whole_units t ch st
            = Inr (st\<lparr>left_cores := left_cores st - (k + 1) * c,
                       result := dict_set ch (n + (k + 1)) (result st)\<rparr>)"
      unfolding unf w by (simp add: dict_set_twice algebra_simps)
    moreover have "0 \<le> k + 1" using k by simp
    moreover have "0 \<le> left_cores st - (k + 1) * c"
      using nn True by (simp add: algebra_simps)
    ultimately show ?thesis by blast
  qed
qed

lemma whole_units_Inr_known:
  "whole_units t ch st = Inr st' \<Longrightarrow> \<exists>c. cores_of t = Inr c"
  by (subst (asm) whole_units.simps) (auto split: sum.splits)

lemma allocate_Inr_known:
  "allocate cpz az t st = Inr st' \<Longrightarrow> \<exists>c. cores_of t = Inr c"
  by (auto simp: allocate_def Let_def split: sum.splits if_splits dest: whole_units_Inr_known)

lemma allocate_effect:
  assumes c: "cores_of t = Inr c"
    and fresh: "choice_key az t \<notin> fst ` set (result st)"
  shows "\<exists>k b. 0 \<le> k \<and> (b = 0 \<or> b = 1)
      \<and> allocate cpz az t st
          = Inr \<lparr>result = result st @ [(choice_key az t, k + b)],
                 left_cores = left_cores st + cpz - k * c,
                 spare_cores = spare_cores st + (left_cores st + cpz - k * c) - b * c\<rparr>
      \<and> (0 \<le> left_cores st + cpz \<longrightarrow> 0 \<le> left_cores st + cpz - k * c)"
proof -
  let ?ch = "choice_key az t"
  let ?st2 = "st\<lparr>result := result st @ [(?ch, 0)], left_cores := left_cores st + cpz\<rparr>"
  have look: "map_of (result ?st2) ?ch = Some 0"
    using map_of_last [OF fresh] by simp
  from whole_units_effect [OF c look]
  obtain k where k: "0 \<le> k"
    and w: "whole_units t ?ch ?st2
            = Inr (?st2\<lparr>left_cores := left_cores ?st2 - k * c,
                        result := dict_set ?ch (0 + k) (result ?st2)\<rparr>)"
    and nn: "0 \<le> left_cores ?st2 \<longrightarrow> 0 \<le> left_cores ?st2 - k * c"
    by blast
  let ?l = "left_cores st + cpz - k * c"
  let ?st3 = "st\<lparr>result := result st @ [(?ch, k)], left_cores := ?l\<rparr>"
  have w3: "whole_units t ?ch ?st2 = Inr ?st3"
    unfolding w using fresh by (simp add: dict_set_last)
  have fresh_mem: "?ch \<notin> set (map fst (result st))"
    using fresh by simp
  have st2: "(let st1 = (if ?ch \<notin> set (map fst (result st))
                 then st\<lparr>result := dict_set ?ch 0 (result st)\<rparr> else st)
              in st1\<lparr>left_cores := left_cores st1 + cpz\<rparr>) = ?st2"
    using fresh by (simp add: dict_set_fresh Let_def)
  let ?s = "spare_cores st + ?l"
  show ?thesis
  proof (cases "?s \<noteq> 0 \<and> c \<le> ?s")
    case True
    have "allocate cpz az t st
          = Inr \<lparr>result = result st @ [(?ch, k + 1)], left_cores = ?l,
                 spare_cores = spare_cores st + ?l - 1 * c\<rparr>"
      using True c fresh w3
      by (simp add: allocate_def Let_def dict_set_fresh dict_incr_def map_of_last dict_set_last
            del: map_of_append)
    with k nn show ?thesis
      by (intro exI [of _ k] exI [of _ 1]) simp
  next
    case False
    have "allocate cpz az t st
          = Inr \<lparr>result = result st @ [(?ch, k + 0)], left_cores = ?l,
                 spare_cores = spare_cores st + ?l - 0 * c\<rparr>"
      using False c fresh w3
      by (auto simp add: allocate_def Let_def dict_set_fresh)
    with k nn show ?thesis
      by (intro exI [of _ k] exI [of _ 0]) simp
  qed
qed

lemma not_in_keys_fresh:
  "\<not> list_ex (str_in az) (map fst d) \<Longrightarrow> choice_key az t \<notin> fst ` set d"
  using str_in_choice_key [of az t] by (auto simp: list_ex_iff)

lemma walk_effect:
  assumes "walk cpz m choices st = Inr st'"
    and "int (length (result st)) \<le> m"
  shows "\<exists>sel. result st' = result st @ map (\<lambda>((az, t), c, u). (choice_key az t, u)) sel
     \<and> (\<forall>((az, t), c, u) \<in> set sel. (az, t) \<in> set choices \<and> cores_of t = Inr c \<and> 0 \<le> u
            \<and> \<not> list_ex (str_in az) (map fst (result st)))
     \<and> distinct (map (fst \<circ> fst) sel)
     \<and> int (length (result st')) \<le> m
     \<and> (0 \<le> cpz \<and> 0 \<le> left_cores st \<longrightarrow>
          0 \<le> left_cores st'
          \<and> (\<Sum>(p, c, u)\<leftarrow>sel. u * c) + left_cores st'
               \<le> left_cores st + int (length sel) * cpz + (\<Sum>(p, c, u)\<leftarrow>sel. c))"
  using assms
proof (induction choices arbitrary: st)
  case Nil
  then show ?case by (intro exI [of _ "[]"]) simp
next
  case (Cons pair choices)
  obtain az t where pair: "pair = (az, t)" by (cases pair)
  show ?case
  proof (cases "list_ex (str_in az) (map fst (result st))")
    case True
    with Cons.prems(1) pair have "walk cpz m choices st = Inr st'" by simp
    from Cons.IH [OF this Cons.prems(2)] obtain sel where
      sel: "result st' = result st @ map (\<lambda>((az, t), c, u). (choice_key az t, u)) sel"
        "\<forall>((az, t), c, u) \<in> set sel. (az, t) \<in> set choices \<and> cores_of t = Inr c \<and> 0 \<le> u
            \<and> \<not> list_ex (str_in az) (map fst (result st))"
        "distinct (map (fst \<circ> fst) sel)"
        "int (length (result st')) \<le> m"
        "0 \<le> cpz \<and> 0 \<le> left_cores st \<longrightarrow>
          0 \<le> left_cores st'
          \<and> (\<Sum>(p, c, u)\<leftarrow>sel. u * c) + left_cores st'
               \<le> left_cores st + int (length sel) * cpz + (\<Sum>(p, c, u)\<leftarrow>sel. c)"
      by blast
    from sel(2) have "\<forall>((az, t), c, u) \<in> set sel. (az, t) \<in> set (pair # choices)
        \<and> cores_of t = Inr c \<and> 0 \<le> u \<and> \<not> list_ex (str_in az) (map fst (result st))"
      by auto
    with sel show ?thesis by blast
  next
    case skip: False
    show ?thesis
    proof (cases "int (length (result st)) = m")
      case True
      with skip Cons.prems(1) pair have "st' = st" by simp
      with Cons.prems show ?thesis by (intro exI [of _ "[]"]) simp
    next
      case False
      with skip Cons.prems(1) pair obtain st1 where
        a: "allocate cpz az t st = Inr st1" and w: "walk cpz m choices st1 = Inr st'"
        by (auto split: sum.splits)
      from allocate_Inr_known [OF a] obtain c where c: "cores_of t = Inr c" by blast
      have pos: "0 < c" using c by (rule cores_of_pos)
      have fresh: "choice_key az t \<notin> fst ` set (result st)"
        using skip by (rule not_in_keys_fresh)
      from allocate_effect [OF c fresh, of cpz] obtain k b where
        k: "0 \<le> k" and b: "b = 0 \<or> b = 1"
        and e: "allocate cpz az t st
          = Inr \<lparr>result = result st @ [(choice_key az t, k + b)],
                 left_cores = left_cores st + cpz - k * c,
                 spare_cores = spare_cores st + (left_cores st + cpz - k * c) - b * c\<rparr>"
        and nn: "0 \<le> left_cores st + cpz \<longrightarrow> 0 \<le> left_cores st + cpz - k * c"
        by blast
      from a e have st1: "st1 = \<lparr>result = result st @ [(choice_key az t, k + b)],
                 left_cores = left_cores st + cpz - k * c,
                 spare_cores = spare_cores st + (left_cores st + cpz - k * c) - b * c\<rparr>"
        by simp
      have r1: "result st1 = result st @ [(choice_key az t, k + b)]"
        and l1: "left_cores st1 = left_cores st + cpz - k * c"
        by (simp_all add: st1)
      have len1: "int (length (result st1)) \<le> m"
        using r1 False Cons.prems(2) by simp
      from Cons.IH [OF w len1] obtain sel where
        sel: "result st' = result st1 @ map (\<lambda>((az, t), c, u). (choice_key az t, u)) sel"
          "\<forall>((az, t), c, u) \<in> set sel. (az, t) \<in> set choices \<and> cores_of t = Inr c \<and> 0 \<le> u
              \<and> \<not> list_ex (str_in az) (map fst (result st1))"
          "distinct (map (fst \<circ> fst) sel)"
          "int (length (result st')) \<le> m"
          "0 \<le> cpz \<and> 0 \<le> left_cores st1 \<longrightarrow>
            0 \<le> left_cores st'
            \<and> (\<Sum>(p, c, u)\<leftarrow>sel. u * c) + left_cores st'
                 \<le> left_cores st1 + int (length sel) * cpz + (\<Sum>(p, c, u)\<leftarrow>sel. c)"
        by blast
      let ?sel = "((az, t), c, k + b) # sel"
      have 1: "result st' = result st @ map (\<lambda>((az, t), c, u). (choice_key az t, u)) ?sel"
        using sel(1) r1 by simp
      have other: "\<forall>((az', t'), c', u') \<in> set sel. az' \<noteq> az
                     \<and> \<not> list_ex (str_in az') (map fst (result st))"
        using sel(2) r1 str_in_choice_key [of az t] by (auto simp: list_ex_iff)
      have 2: "\<forall>((az, t), c, u) \<in> set ?sel. (az, t) \<in> set (pair # choices)
              \<and> cores_of t = Inr c \<and> 0 \<le> u \<and> \<not> list_ex (str_in az) (map fst (result st))"
        using sel(2) other c k b skip pair by auto
      have 3: "distinct (map (fst \<circ> fst) ?sel)"
        using sel(3) other by auto
      have 5: "0 \<le> cpz \<and> 0 \<le> left_cores st \<longrightarrow>
            0 \<le> left_cores st'
            \<and> (\<Sum>(p, c, u)\<leftarrow>?sel. u * c) + left_cores st'
                 \<le> left_cores st + int (length ?sel) * cpz + (\<Sum>(p, c, u)\<leftarrow>?sel. c)"
      proof
        assume h: "0 \<le> cpz \<and> 0 \<le> left_cores st"
        then have nn1: "0 \<le> left_cores st1" using nn l1 by simp
        with h sel(5) have s5: "0 \<le> left_cores st'"
          and s6: "(\<Sum>(p, c, u)\<leftarrow>sel. u * c) + left_cores st'
                 \<le> left_cores st1 + int (length sel) * cpz + (\<Sum>(p, c, u)\<leftarrow>sel. c)"
          by simp_all
        have "(k + b) * c \<le> k * c + c"
          using b pos by (auto simp: algebra_simps)
        with s6 l1
        have "(\<Sum>(p, c, u)\<leftarrow>?sel. u * c) + left_cores st'
              \<le> left_cores st + int (length ?sel) * cpz + (\<Sum>(p, c, u)\<leftarrow>?sel. c)"
          by (simp add: algebra_simps)
        with s5 show "0 \<le> left_cores st'
            \<and> (\<Sum>(p, c, u)\<leftarrow>?sel. u * c) + left_cores st'
                 \<le> left_cores st + int (length ?sel) * cpz + (\<Sum>(p, c, u)\<leftarrow>?sel. c)"
          by simp
      qed
      from 1 2 3 sel(4) 5 show ?thesis by blast
    qed
  qed
qed

lemma walk_succeeds:
  "\<forall>(az, t) \<in> set choices. \<exists>c. cores_of t = Inr c \<Longrightarrow> \<exists>st'. walk cpz m choices st = Inr st'"
proof (induction choices arbitrary: st)
  case Nil
  then show ?case by simp
next
  case (Cons pair choices)
  obtain az t where pair: "pair = (az, t)" by (cases pair)
  from Cons.prems pair obtain c where c: "cores_of t = Inr c" by auto
  from Cons.prems have rest: "\<forall>(az, t) \<in> set choices. \<exists>c. cores_of t = Inr c" by simp
  show ?case
  proof (cases "list_ex (str_in az) (map fst (result st))")
    case True
    with Cons.IH [OF rest, of st] pair show ?thesis by simp
  next
    case False
    then have fresh: "choice_key az t \<notin> fst ` set (result st)"
      by (rule not_in_keys_fresh)
    from allocate_effect [OF c fresh, of cpz] obtain st1 where
      "allocate cpz az t st = Inr st1" by blast
    with Cons.IH [OF rest, of st1] False pair show ?thesis by simp
  qed
qed

lemma walk_from_empty:
  assumes "walk cpz m choices \<lparr>result = [], left_cores = 0, spare_cores = sp\<rparr> = Inr st"
    and "0 \<le> m"
  shows "\<exists>sel. result st = map (\<lambda>((az, t), c, u). (choice_key az t, u)) sel
     \<and> (\<forall>x \<in> set sel. fst x \<in> set choices \<and> cores_of (snd (fst x)) = Inr (fst (snd x)))
     \<and> distinct (map (fst \<circ> fst) sel)
     \<and> int (length sel) \<le> m
     \<and> (0 \<le> cpz \<longrightarrow>
          (\<Sum>(p, c, u)\<leftarrow>sel. u * c) \<le> int (length sel) * cpz + (\<Sum>(p, c, u)\<leftarrow>sel. c))"
proof -
  let ?st0 = "\<lparr>result = [], left_cores = 0, spare_cores = sp\<rparr>"
  from assms(2) have "int (length (result ?st0)) \<le> m" by simp
  from walk_effect [OF assms(1) this] obtain sel where
    1: "result st = result ?st0 @ map (\<lambda>((az, t), c, u). (choice_key az t, u)) sel" and
    2: "\<forall>((az, t), c, u) \<in> set sel. (az, t) \<in> set choices \<and> cores_of t = Inr c \<and> 0 \<le> u
            \<and> \<not> list_ex (str_in az) (map fst (result ?st0))" and
    3: "distinct (map (fst \<circ> fst) sel)" and
    4: "int (length (result st)) \<le> m" and
    5: "0 \<le> cpz \<and> 0 \<le> left_cores ?st0 \<longrightarrow>
          0 \<le> left_cores st
          \<and> (\<Sum>(p, c, u)\<leftarrow>sel. u * c) + left_cores st
               \<le> left_cores ?st0 + int (length sel) * cpz + (\<Sum>(p, c, u)\<leftarrow>sel. c)"
    by blast
  from 1 have a: "result st = map (\<lambda>((az, t), c, u). (choice_key az t, u)) sel" by simp
  from 2 have b: "\<forall>x \<in> set sel. fst x \<in> set choices \<and> cores_of (snd (fst x)) = Inr (fst (snd x))"
    by auto
  from 4 a have d: "int (length sel) \<le> m" by simp
  from 5 have e: "0 \<le> cpz \<longrightarrow>
          (\<Sum>(p, c, u)\<leftarrow>sel. u * c) \<le> int (length sel) * cpz + (\<Sum>(p, c, u)\<leftarrow>sel. c)"
    by auto
  from a b 3 d e show ?thesis by blast
qed

lemma get_cheap_cores_Inr:
  assumes "get_cheap_cores api R T Z m = Inr plan"
  shows "\<exists>choices cs st.
           ranking api T Z = Inr choices
         \<and> cores_list T = Inr cs \<and> cs \<noteq> [] \<and> Min (set cs) * m \<noteq> 0
         \<and> walk (R div (Min (set cs) * m) * Min (set cs)) m choices
              \<lparr>result = [], left_cores = 0, spare_cores = R mod (Min (set cs) * m)\<rparr> = Inr st
         \<and> plan = result st"
proof -
  from assms obtain choices cs smallest cpa spare st where
    r: "ranking api T Z = Inr choices" and
    c: "cores_list T = Inr cs" and
    m: "py_min cs = Inr smallest" and
    d: "py_divmod R (smallest * m) = Inr (cpa, spare)" and
    w: "walk (cpa * smallest) m choices \<lparr>result = [], left_cores = 0, spare_cores = spare\<rparr> = Inr st" and
    p: "plan = result st"
    by (auto simp: get_cheap_cores_def split: sum.splits prod.splits)
  from m have ne: "cs \<noteq> []" and s: "smallest = Min (set cs)"
    by (auto simp: py_min_def min_list_Min split: if_splits)
  from d have "cpa = R div (smallest * m)" "spare = R mod (smallest * m)" "smallest * m \<noteq> 0"
    by (auto simp: py_divmod_def split: if_splits)
  with r c ne s w p show ?thesis
    by auto
qed

lemma cores_list_pos: "cores_list ts = Inr cs \<Longrightarrow> \<forall>c \<in> set cs. 0 < c"
  by (induction ts arbitrary: cs) (auto split: sum.splits dest: cores_of_pos)

lemma cores_list_succeeds:
  "\<forall>t \<in> set ts. \<exists>c. cores_of t = Inr c \<Longrightarrow> \<exists>cs. cores_list ts = Inr cs \<and> length cs = length ts"
  by (induction ts) auto

lemma sel_sums:
  "(\<Sum>(u, c)\<leftarrow>zip (map snd (map (\<lambda>((az, t), c, u). (choice_key az t, u)) sel))
                   (map (fst \<circ> snd) sel). u * c)
     = (\<Sum>(p, c, u)\<leftarrow>sel. u * c)"
  "sum_list (map (fst \<circ> snd) sel) = (\<Sum>(p, c, u)\<leftarrow>sel. c)"
  by (induction sel) (auto simp: case_prod_beta)

lemma sel_keys:
  "map fst (map (\<lambda>((az, t), c, u). (choice_key az t, u)) sel)
     = map (\<lambda>(az, t). choice_key az t) (map fst sel)"
  by (induction sel) auto

lemma sel_cores:
  "\<forall>((az, t), c, u) \<in> set sel. cores_of t = Inr c \<Longrightarrow>
     map (cores_of \<circ> snd) (map fst sel) = map Inr (map (fst \<circ> snd) sel)"
  by (induction sel) auto

text \<open>
  Claim C1, as stated, fails: with 7 cores requested, one candidate type of 4 cores priced
  in three zones and \<open>m = 3\<close>, the plan holds one unit in the first zone and none in the
  others, 4 cores in all, fewer than the 7 requested.
\<close>

theorem undershoot_example:
  "get_cheap_cores (\<lambda>types az. [(''m5.xlarge'', 1 / 10)]) 7 [''m5.xlarge''] [''a'', ''b'', ''c''] 3
     = Inr [(''a|m5.xlarge'', 1), (''b|m5.xlarge'', 0), (''c|m5.xlarge'', 0)]
   \<and> cores_of ''m5.xlarge'' = Inr 4
   \<and> (1 * 4 + 0 * 4 + 0 * 4 < (7 :: int))"
  by code_simp

text \<open>
  Claim C1, amended. For \<open>R \<ge> 0\<close> and \<open>m \<ge> 1\<close>, every plan that \<^verbatim>\<open>get_cheap_cores\<close>
  returns has one entry per chosen (zone, type) pair, with distinct zones, and the sum over
  the entries of unit count times core count is at most \<open>R\<close> plus one unit's worth of
  cores per chosen zone. (No lower bound holds: the sum can be less than \<open>R\<close>.)
\<close>

theorem cheap_cores_excess_bound:
  assumes "get_cheap_cores api R T Z m = Inr plan" and "0 \<le> R" and "1 \<le> m"
  shows "\<exists>ps cs. map fst plan = map (\<lambda>(az, t). choice_key az t) ps
           \<and> map (cores_of \<circ> snd) ps = map Inr cs
           \<and> distinct (map fst ps)
           \<and> (\<Sum>(u, c)\<leftarrow>zip (map snd plan) cs. u * c) \<le> R + sum_list cs"
proof -
  from get_cheap_cores_Inr [OF assms(1)] obtain choices ks st where
    c: "cores_list T = Inr ks" and ne: "ks \<noteq> []" and
    w: "walk (R div (Min (set ks) * m) * Min (set ks)) m choices
              \<lparr>result = [], left_cores = 0, spare_cores = R mod (Min (set ks) * m)\<rparr> = Inr st" and
    p: "plan = result st"
    by blast
  let ?s = "Min (set ks)"
  let ?cpz = "R div (?s * m) * ?s"
  from ne have "?s \<in> set ks" by simp
  with cores_list_pos [OF c] have s: "0 < ?s" by blast
  with assms(3) have sm: "0 < ?s * m" by simp
  with assms(2) have q: "0 \<le> R div (?s * m)"
    by (simp add: pos_imp_zdiv_nonneg_iff)
  with s have cpz: "0 \<le> ?cpz" by simp
  from assms(3) have len0: "int (length (result \<lparr>result = [], left_cores = 0,
      spare_cores = R mod (?s * m)\<rparr>)) \<le> m"
    by simp
  from walk_effect [OF w len0] cpz obtain sel where
    r: "result st = map (\<lambda>((az, t), c, u). (choice_key az t, u)) sel" and
    k: "\<forall>((az, t), c, u) \<in> set sel. cores_of t = Inr c" and
    d: "distinct (map (fst \<circ> fst) sel)" and
    l: "int (length (result st)) \<le> m" and
    nn: "0 \<le> left_cores st" and
    b: "(\<Sum>(p, c, u)\<leftarrow>sel. u * c) + left_cores st
          \<le> int (length sel) * ?cpz + (\<Sum>(p, c, u)\<leftarrow>sel. c)"
    by fastforce
  from l r have "int (length sel) \<le> m" by simp
  then have "int (length sel) * ?cpz \<le> m * ?cpz"
    using cpz by (rule mult_right_mono)
  also have "m * ?cpz = (?s * m) * (R div (?s * m))" by simp
  also have "\<dots> = R - R mod (?s * m)"
    by (simp add: minus_mod_eq_mult_div)
  also have "\<dots> \<le> R" using sm by simp
  finally have "int (length sel) * ?cpz \<le> R" .
  with b nn have total: "(\<Sum>(p, c, u)\<leftarrow>sel. u * c) \<le> R + (\<Sum>(p, c, u)\<leftarrow>sel. c)"
    by linarith
  let ?ps = "map fst sel" and ?cs = "map (fst \<circ> snd) sel"
  have "map fst plan = map (\<lambda>(az, t). choice_key az t) ?ps"
    unfolding p r by (rule sel_keys)
  moreover have "map (cores_of \<circ> snd) ?ps = map Inr ?cs"
    using k by (rule sel_cores)
  moreover have "distinct (map fst ?ps)" using d by simp
  moreover have "(\<Sum>(u, c)\<leftarrow>zip (map snd plan) ?cs. u * c) \<le> R + sum_list ?cs"
    unfolding p r sel_sums using total .
  ultimately show ?thesis by blast
qed

theorem cheap_cores_excess_bound_witness:
  "\<exists>ps cs. map fst [(''a|m5.xlarge'', 0 :: int), (''b|m5.xlarge'', 1), (''c|m5.xlarge'', 1)]
              = map (\<lambda>(az, t). choice_key az t) ps
           \<and> map (cores_of \<circ> snd) ps = map Inr cs
           \<and> distinct (map fst ps)
           \<and> (\<Sum>(u, c)\<leftarrow>zip (map snd [(''a|m5.xlarge'', 0 :: int), (''b|m5.xlarge'', 1),
                                        (''c|m5.xlarge'', 1)]) cs. u * c)
               \<le> 6 + sum_list cs"
proof -
  have g: "get_cheap_cores (\<lambda>types az. [(''m5.large'', 1 / 10), (''m5.xlarge'', 1 / 10)]) 6
          [''m5.large'', ''m5.xlarge''] [''a'', ''b'', ''c''] 3
        = Inr [(''a|m5.xlarge'', 0), (''b|m5.xlarge'', 1), (''c|m5.xlarge'', 1)]"
    by code_simp
  have r: "(0 :: int) \<le> 6" and m: "(1 :: int) \<le> 3" by simp_all
  from cheap_cores_excess_bound [OF g r m] show ?thesis .
qed

text \<open>
  Claim C2, as stated, fails: with only two zones, both priced, and \<open>m = 3\<close>,
  \<^verbatim>\<open>get_cheap_cores\<close> raises nothing and returns a plan over the two zones.
\<close>

theorem two_zones_no_error:
  "get_cheap_cores (\<lambda>types az. [(''m5.xlarge'', 1 / 10)]) 100 [''m5.xlarge''] [''a'', ''b''] 3
     = Inr [(''a|m5.xlarge'', 9), (''b|m5.xlarge'', 8)]"
  by code_simp

text \<open>
  Claim C2, amended. For \<open>m \<ge> 1\<close>, every plan that \<^verbatim>\<open>get_cheap_cores\<close> returns has one
  entry per chosen zone, the chosen zones are distinct zones of \<open>Z\<close>, and there are at most
  \<open>m\<close> of them and at most as many as \<open>Z\<close> has distinct zones. There is no check of the
  zone diversity: whenever every candidate type is of known size and priced in every zone
  of \<open>Z\<close>, a plan is returned, however few zones there are.
\<close>

theorem cheap_cores_zone_count:
  assumes "1 \<le> m"
  shows "(\<forall>plan. get_cheap_cores api R T Z m = Inr plan \<longrightarrow>
            (\<exists>ps. map fst plan = map (\<lambda>(az, t). choice_key az t) ps
                \<and> distinct (map fst ps) \<and> fst ` set ps \<subseteq> set Z
                \<and> int (length plan) \<le> m \<and> length plan \<le> card (set Z)))
       \<and> (T \<noteq> [] \<and> (\<forall>t \<in> set T. \<exists>c. cores_of t = Inr c)
            \<and> (\<forall>az \<in> set Z. set T \<subseteq> fst ` set (api T az)
                    \<and> (\<forall>(t, p) \<in> set (api T az). \<exists>c. cores_of t = Inr c))
          \<longrightarrow> (\<exists>plan. get_cheap_cores api R T Z m = Inr plan))"
proof (intro conjI allI impI)
  fix plan assume g: "get_cheap_cores api R T Z m = Inr plan"
  from get_cheap_cores_Inr [OF g] obtain choices ks st where
    rk: "ranking api T Z = Inr choices" and
    w: "walk (R div (Min (set ks) * m) * Min (set ks)) m choices
              \<lparr>result = [], left_cores = 0, spare_cores = R mod (Min (set ks) * m)\<rparr> = Inr st" and
    p: "plan = result st"
    by blast
  from assms have "0 \<le> m" by simp
  from walk_from_empty [OF w this] obtain sel where
    r: "result st = map (\<lambda>((az, t), c, u). (choice_key az t, u)) sel" and
    k: "\<forall>x \<in> set sel. fst x \<in> set choices \<and> cores_of (snd (fst x)) = Inr (fst (snd x))" and
    d: "distinct (map (fst \<circ> fst) sel)" and
    l: "int (length sel) \<le> m"
    by (elim exE conjE)
  let ?ps = "map fst sel"
  have keys: "map fst plan = map (\<lambda>(az, t). choice_key az t) ?ps"
    unfolding p r by (rule sel_keys)
  have dist: "distinct (map fst ?ps)" using d by simp
  have sub: "fst ` set ?ps \<subseteq> set Z"
  proof
    fix az assume "az \<in> fst ` set ?ps"
    then obtain t c u where "((az, t), c, u) \<in> set sel" by force
    with k have "(az, t) \<in> set choices" by force
    from ranking_pairs [OF rk this] show "az \<in> set Z" by simp
  qed
  have "length plan = length (map fst ?ps)" unfolding p r by simp
  also have "\<dots> = card (set (map fst ?ps))" using distinct_card [OF dist] by simp
  also have "\<dots> \<le> card (set Z)" using sub by (intro card_mono) auto
  finally have "length plan \<le> card (set Z)" .
  moreover from l have "int (length plan) \<le> m" unfolding p r by simp
  ultimately
  show "\<exists>ps. map fst plan = map (\<lambda>(az, t). choice_key az t) ps
           \<and> distinct (map fst ps) \<and> fst ` set ps \<subseteq> set Z
           \<and> int (length plan) \<le> m \<and> length plan \<le> card (set Z)"
    using keys dist sub by blast
next
  assume a: "T \<noteq> [] \<and> (\<forall>t \<in> set T. \<exists>c. cores_of t = Inr c)
            \<and> (\<forall>az \<in> set Z. set T \<subseteq> fst ` set (api T az)
                    \<and> (\<forall>(t, p) \<in> set (api T az). \<exists>c. cores_of t = Inr c))"
  then have ne: "T \<noteq> []" and known: "\<forall>t \<in> set T. \<exists>c. cores_of t = Inr c"
    and cover: "\<forall>az \<in> set Z. set T \<subseteq> fst ` set (api T az)"
    and obs: "\<forall>az \<in> set Z. \<forall>(t, p) \<in> set (api T az). \<exists>c. cores_of t = Inr c"
    by blast+
  have "\<forall>az \<in> set Z. api T az \<noteq> []"
  proof
    fix az assume "az \<in> set Z"
    moreover from ne have "hd T \<in> set T" by simp
    ultimately have "hd T \<in> fst ` set (api T az)" using cover by blast
    then show "api T az \<noteq> []" by auto
  qed
  with obs have "\<forall>az \<in> set Z. api T az \<noteq> []
      \<and> (\<forall>(t, p) \<in> set (api T az). \<exists>c. cores_of t = Inr c)"
    by blast
  from pricing_loop_succeeds [of Z api T "fromkeys Z []", OF this] obtain pr where
    gp: "get_pricing api T Z = Inr pr"
    unfolding get_pricing_def by blast
  have none: "None \<notin> fst ` set (flat pr)"
  proof
    assume "None \<in> fst ` set (flat pr)"
    then obtain az t where "(None, az, t) \<in> set (flat pr)" by force
    then obtain r where r: "(az, r) \<in> set pr" and t: "(t, None) \<in> set r"
      by (auto simp: flat_iff)
    from get_pricing_rows(3) [OF gp r] have az: "az \<in> set Z" and f: "filled api T az r"
      by simp_all
    from t filled_row(3) [OF f] have "t \<in> set T" "t \<notin> fst ` set (api T az)" by simp_all
    with cover az show False by blast
  qed
  from ranking_succeeds [OF gp none] obtain choices where
    rk: "ranking api T Z = Inr choices" by blast
  have all_known: "\<forall>(az, t) \<in> set choices. \<exists>c. cores_of t = Inr c"
  proof (intro ballI, clarify)
    fix az t assume "(az, t) \<in> set choices"
    from ranking_pairs [OF rk this]
    have az: "az \<in> set Z" and "t \<in> set T \<or> t \<in> fst ` set (api T az)" by simp_all
    then show "\<exists>c. cores_of t = Inr c"
      using known obs by fastforce
  qed
  from cores_list_succeeds [OF known] obtain ks where
    ks: "cores_list T = Inr ks" and "length ks = length T" by blast
  with ne have kne: "ks \<noteq> []" by auto
  then have "Min (set ks) \<in> set ks" by simp
  with cores_list_pos [OF ks] have pos: "0 < Min (set ks)" by blast
  then have "Min (set ks) \<noteq> 0" by (metis less_irrefl)
  moreover from assms have "m \<noteq> 0" by simp
  ultimately have "Min (set ks) * m \<noteq> 0" by (metis mult_eq_0_iff)
  then have nz: "min_list ks * m \<noteq> 0"
    unfolding min_list_Min [OF kne] .
  from walk_succeeds [OF all_known] obtain st where
    "walk (R div (min_list ks * m) * min_list ks) m choices
       \<lparr>result = [], left_cores = 0, spare_cores = R mod (min_list ks * m)\<rparr> = Inr st"
    by blast
  with rk ks kne nz show "\<exists>plan. get_cheap_cores api R T Z m = Inr plan"
    by (simp add: get_cheap_cores_def py_min_def py_divmod_def)
qed

theorem cheap_cores_zone_count_witness:
  "(\<exists>ps. map fst [(''a|m5.xlarge'', 9 :: int), (''b|m5.xlarge'', 8)]
           = map (\<lambda>(az, t). choice_key az t) ps
        \<and> distinct (map fst ps) \<and> fst ` set ps \<subseteq> set [''a'', ''b'']
        \<and> int (length [(''a|m5.xlarge'', 9 :: int), (''b|m5.xlarge'', 8)]) \<le> 3
        \<and> length [(''a|m5.xlarge'', 9 :: int), (''b|m5.xlarge'', 8)] \<le> card (set [''a'', ''b'']))
   \<and> (\<exists>plan. get_cheap_cores (\<lambda>types az. [(''m5.xlarge'', 1 / 10)]) 100 [''m5.xlarge'']
                 [''a'', ''b''] 3 = Inr plan)"
proof -
  let ?api = "\<lambda>(types :: string list) (az :: string). [(''m5.xlarge'', 1 / 10 :: rat)]"
  have g: "get_cheap_cores ?api 100 [''m5.xlarge''] [''a'', ''b''] 3
        = Inr [(''a|m5.xlarge'', 9), (''b|m5.xlarge'', 8)]"
    by code_simp
  have m: "(1 :: int) \<le> 3" by simp
  have c: "cores_of ''m5.xlarge'' = Inr 4" by code_simp
  have h: "[''m5.xlarge''] \<noteq> [] \<and> (\<forall>t \<in> set [''m5.xlarge'']. \<exists>c. cores_of t = Inr c)
            \<and> (\<forall>az \<in> set [''a'', ''b'']. set [''m5.xlarge''] \<subseteq> fst ` set (?api [''m5.xlarge''] az)
                    \<and> (\<forall>(t, p) \<in> set (?api [''m5.xlarge''] az). \<exists>c. cores_of t = Inr c))"
    using c by simp
  note zc = cheap_cores_zone_count [OF m, of ?api 100 "[''m5.xlarge'']" "[''a'', ''b'']"]
  from zc g have 1: "\<exists>ps. map fst [(''a|m5.xlarge'', 9 :: int), (''b|m5.xlarge'', 8)]
           = map (\<lambda>(az, t). choice_key az t) ps
        \<and> distinct (map fst ps) \<and> fst ` set ps \<subseteq> set [''a'', ''b'']
        \<and> int (length [(''a|m5.xlarge'', 9 :: int), (''b|m5.xlarge'', 8)]) \<le> 3
        \<and> length [(''a|m5.xlarge'', 9 :: int), (''b|m5.xlarge'', 8)] \<le> card (set [''a'', ''b''])"
    by blast
  from zc h have 2: "\<exists>plan. get_cheap_cores ?api 100 [''m5.xlarge''] [''a'', ''b''] 3 = Inr plan"
    by blast
  from 1 2 show ?thesis by blast
qed

text \<open>
  Claim C9. With no cores requested, two priced zones and \<open>m = 2\<close>, where the identifier
  of the second zone occurs inside the plan key of the first, the plan has a single entry:
  the second zone is skipped, so the plan does not select \<open>m\<close> zones.
\<close>

theorem zero_cores_substring_zones:
  "get_cheap_cores (\<lambda>types az. [(''m5.large'', 1 / 20)]) 0 [''m5.large'']
      [''us-east-1a'', ''us-east-1''] 2
     = Inr [(''us-east-1a|m5.large'', 0)]"
  by code_simp

text \<open>
  Claim C10. A pair is skipped as soon as its zone identifier occurs inside a key of the
  plan, whatever the zone of that key. So with the zones \<open>us-east-1a\<close> and \<open>us-east-1\<close>,
  both priced, and \<open>m = 2\<close>, the zone \<open>us-east-1\<close> is skipped although the plan has no
  entry for it, and the returned plan has fewer than \<open>min(m, |Z|)\<close> entries.
\<close>

theorem substring_zone_test:
  "(\<forall>cpz m az t choices st.
      list_ex (str_in az) (map fst (result st)) \<longrightarrow>
        walk cpz m ((az, t) # choices) st = walk cpz m choices st)
   \<and> str_in ''us-east-1'' (choice_key ''us-east-1a'' ''m5.large'')
   \<and> ''us-east-1'' \<noteq> ''us-east-1a''
   \<and> get_latest_price (\<lambda>types az. [(''m5.large'', 1 / 20)]) [''m5.large''] ''us-east-1''
       = Some [(''m5.large'', 1 / 20)]
   \<and> get_cheap_cores (\<lambda>types az. [(''m5.large'', 1 / 20)]) 8 [''m5.large'']
        [''us-east-1a'', ''us-east-1''] 2
       = Inr [(''us-east-1a|m5.large'', 2)]
   \<and> length [(''us-east-1a|m5.large'', 2 :: int)]
       < min 2 (length [''us-east-1a'', ''us-east-1''])"
proof -
  have 1: "\<forall>cpz m az t choices st.
      list_ex (str_in az) (map fst (result st)) \<longrightarrow>
        walk cpz m ((az, t) # choices) st = walk cpz m choices st"
    by simp
  have 2: "str_in ''us-east-1'' (choice_key ''us-east-1a'' ''m5.large'')
   \<and> ''us-east-1'' \<noteq> ''us-east-1a''
   \<and> get_latest_price (\<lambda>types az. [(''m5.large'', 1 / 20)]) [''m5.large''] ''us-east-1''
       = Some [(''m5.large'', 1 / 20)]
   \<and> get_cheap_cores (\<lambda>types az. [(''m5.large'', 1 / 20)]) 8 [''m5.large'']
        [''us-east-1a'', ''us-east-1''] 2
       = Inr [(''us-east-1a|m5.large'', 2)]
   \<and> length [(''us-east-1a|m5.large'', 2 :: int)]
       < min 2 (length [''us-east-1a'', ''us-east-1''])"
    by code_simp
  from 1 2 show ?thesis by blast
qed

theorem substring_zone_test_witness:
  "walk 4 2 [(''us-east-1'', ''m5.large'')]
        \<lparr>result = [(''us-east-1a|m5.large'', 2)], left_cores = 0, spare_cores = 0\<rparr>
       = Inr \<lparr>result = [(''us-east-1a|m5.large'', 2)], left_cores = 0, spare_cores = 0\<rparr>"
proof -
  let ?st = "\<lparr>result = [(''us-east-1a|m5.large'', 2)], left_cores = 0, spare_cores = 0\<rparr>"
  have h: "list_ex (str_in ''us-east-1'') (map fst (result ?st))"
    by simp
  from substring_zone_test have
    "list_ex (str_in ''us-east-1'') (map fst (result ?st)) \<longrightarrow>
       walk 4 2 ((''us-east-1'', ''m5.large'') # []) ?st = walk 4 2 [] ?st"
    by blast
  with h show ?thesis by simp
qed

end
